theory Spec2Isabelle
  imports Complex_Main "HOL-Library.Multiset"
begin

section \<open>The ping scheduling and reconciliation engine of ip-monitor\<close>

text \<open>
  A shallow embedding of \<^verbatim>\<open>services/pingService.js\<close>, \<^verbatim>\<open>workers/pingWorker.js\<close>,
  the two Mongoose models (\<^verbatim>\<open>IP\<close> and \<^verbatim>\<open>Downtime\<close>) and the timer set up in
  \<^verbatim>\<open>server.js\<close>.

  Conventions of the embedding:
  \<^item> a document of a collection is a record, and a collection is the list of its documents
    in insertion order;
  \<^item> \<^verbatim>\<open>new Date()\<close> and \<^verbatim>\<open>Date.now()\<close> read a clock; the reading is the parameter
    \<open>now\<close> (milliseconds), one reading for one reconciliation;
  \<^item> a rejected promise or a thrown exception is \<open>Inl message\<close>, a fulfilled one is
    \<open>Inr value\<close>;
  \<^item> what the program cannot decide itself (whether a storage call fails, whether a worker
    thread crashes, what a probe answers) is read from an environment record.
\<close>

subsection \<open>Data model\<close>

type_synonym address = string
type_synonym millis = int

datatype status = Up | Down | Unknown

text \<open>
  The values of a \<^verbatim>\<open>time\<close> field: \<^verbatim>\<open>null\<close>, a number of milliseconds, or the string
  \<^verbatim>\<open>'unknown'\<close>, which the ping package reports when it has measured no latency.
\<close>

datatype latency = NoTime | Millis real | UnknownTime

text \<open>
  The numbers of the batch computation: an integer, the two infinities, \<^verbatim>\<open>-0\<close> and
  \<^verbatim>\<open>NaN\<close> (\<open>Number 0\<close> is \<^verbatim>\<open>+0\<close>).
\<close>

datatype jsnum = Number int | NegZero | Infinity | NegInfinity | NotANumber

text \<open>
  What \<^verbatim>\<open>ping.promise.probe\<close> answers: \<^verbatim>\<open>{ alive, time, output }\<close>, the time being a
  number or \<^verbatim>\<open>'unknown'\<close>.
\<close>

record reply =
  alive :: bool
  time :: latency
  output_text :: string

text \<open>The values the storage calls and the engine return.\<close>

record duration_update =
  updated :: bool
  duration :: "millis option"

record bulk_result =
  matchedCount :: nat
  modifiedCount :: nat

record summary =
  total :: nat
  updated :: nat
  statusChanges :: nat

record cycle =
  total :: nat
  processed :: nat
  changes :: "nat option"
  up :: "nat option"
  down :: "nat option"
  error :: "string option"

text \<open>An entry of \<^verbatim>\<open>statusChanges\<close>: \<^verbatim>\<open>{ address, from, to }\<close>.\<close>

record change =
  address :: address
  from_status :: status
  to_status :: status

text \<open>\<^verbatim>\<open>ipSchema\<close>: the fields the engine reads or writes.\<close>

record ip =
  address :: address
  status :: status
  downtimeCount :: nat
  lastDowntime :: "millis option"
  lastChecked :: millis
  responseTime :: "real option"

text \<open>\<^verbatim>\<open>downtimeSchema\<close>; \<open>duration = None\<close> is the \<^verbatim>\<open>null\<close> of an ongoing downtime.\<close>

record downtime =
  ipAddress :: address
  timestamp :: millis
  duration :: "millis option"
  reason :: string

text \<open>The object a probe produces: \<^verbatim>\<open>{ address, alive, time, error }\<close>.\<close>

record ping =
  address :: address
  alive :: bool
  time :: latency
  error :: "string option"

text \<open>The two collections.\<close>

record db =
  ips :: "ip list"
  downtimes :: "downtime list"

subsection \<open>The environment\<close>

text \<open>
  The storage calls the engine makes. Each may be rejected by the driver; \<open>db_error\<close>
  says which are, and with which message.
\<close>

datatype db_call =
    FindAll
  | FindStatus "address list"
  | SaveDowntime address
  | MarkDowntime address
  | FindOpenDowntime address
  | SetDuration address
  | BulkWrite

text \<open>
  \<open>worker_error batch retries\<close> is the error with which the worker thread spawned for
  \<open>batch\<close>, with \<open>retries\<close> retries left, stops (\<open>None\<close>: it posts its results);
  \<open>probe\<close> is what the ping library does for an address: it throws or it answers.
  \<open>bulk_rank\<close> is the order in which an unordered bulk write is carried out: of two
  operations the one whose position in the request has the smaller rank comes first (the
  one with the smaller position, if the ranks are equal).
\<close>

record env =
  db_error :: "db_call \<Rightarrow> string option"
  worker_error :: "address list \<Rightarrow> nat \<Rightarrow> string option"
  probe :: "address \<Rightarrow> string + reply"
  bulk_rank :: "nat \<Rightarrow> nat"


subsection \<open>Partitioning the targets (\<^verbatim>\<open>runPingCycle\<close>, the batch computation)\<close>

text \<open>
  \<^verbatim>\<open>Math.ceil(ipCount / d)\<close> for a count and a JavaScript number \<open>d\<close>. The counts are small
  non-negative integers, for which the division of doubles followed by \<^verbatim>\<open>Math.ceil\<close> is
  the ceiling of the exact quotient. A positive count divided by a zero is the infinity of
  the sign of that zero, \<^verbatim>\<open>0 / 0\<close> is \<^verbatim>\<open>NaN\<close>, a count divided by an infinity is a zero of
  the sign of the infinity, a count divided by a negative number is negative (\<^verbatim>\<open>-0\<close> for
  the count 0), and the ceiling of a number between -1 and 0 is \<^verbatim>\<open>-0\<close>.
\<close>

definition ceilQuotient :: "nat \<Rightarrow> jsnum \<Rightarrow> jsnum" where
  "ceilQuotient ipCount d =
     (case d of
        NotANumber \<Rightarrow> NotANumber
      | Infinity \<Rightarrow> Number 0
      | NegInfinity \<Rightarrow> NegZero
      | NegZero \<Rightarrow> (if ipCount = 0 then NotANumber else NegInfinity)
      | Number k \<Rightarrow>
          if k = 0 then (if ipCount = 0 then NotANumber else Infinity)
          else if 0 < k then Number \<lceil>real ipCount / real_of_int k\<rceil>
          else if \<lceil>real ipCount / real_of_int k\<rceil> = 0 then NegZero
          else Number \<lceil>real ipCount / real_of_int k\<rceil>)"

text \<open>
  \<^verbatim>\<open>Math.min(maxWorkers, x)\<close> for the validated worker count, a non-negative integer:
  \<^verbatim>\<open>NaN\<close> if \<open>x\<close> is, and \<^verbatim>\<open>-0\<close> counts as less than \<^verbatim>\<open>+0\<close>.
\<close>

definition minWorkers :: "nat \<Rightarrow> jsnum \<Rightarrow> jsnum" where
  "minWorkers maxWorkers x =
     (case x of
        NotANumber \<Rightarrow> NotANumber
      | Infinity \<Rightarrow> Number (int maxWorkers)
      | NegInfinity \<Rightarrow> NegInfinity
      | NegZero \<Rightarrow> NegZero
      | Number k \<Rightarrow> Number (min (int maxWorkers) k))"

text \<open>\<^verbatim>\<open>Math.min(maxWorkers, Math.ceil(ipCount / maxBatchSize))\<close>\<close>

definition optimalWorkerCount :: "nat \<Rightarrow> jsnum \<Rightarrow> nat \<Rightarrow> jsnum" where
  "optimalWorkerCount maxWorkers maxBatchSize ipCount =
     minWorkers maxWorkers (ceilQuotient ipCount maxBatchSize)"

text \<open>\<^verbatim>\<open>Math.ceil(ipCount / optimalWorkerCount)\<close>\<close>

definition batchSize :: "nat \<Rightarrow> jsnum \<Rightarrow> jsnum" where
  "batchSize ipCount workerCount = ceilQuotient ipCount workerCount"

text \<open>
  \<^verbatim>\<open>ipAddresses.slice(start, stop)\<close> for integer arguments: a negative argument counts
  from the end of the array, and both are clamped to the array.
\<close>

definition slice :: "int \<Rightarrow> int \<Rightarrow> 'a list \<Rightarrow> 'a list" where
  "slice start stop xs =
     (let len = int (length xs);
          k = (if start < 0 then max (len + start) 0 else min start len);
          final = (if stop < 0 then max (len + stop) 0 else min stop len)
      in take (nat (final - k)) (drop (nat k) xs))"

text \<open>
  \<^verbatim>\<open>for (let i = 0; i < ipCount; i += batchSize) batches.push(ipAddresses.slice(i, i + batchSize))\<close>
  for an integer step. With a step that is not positive the loop of the source never ends,
  and neither does this one: its value is then \<open>None\<close>.
\<close>

partial_function (option) batches_from :: "int \<Rightarrow> int \<Rightarrow> 'a list \<Rightarrow> 'a list list option" where
  "batches_from i n ipAddresses =
     (if i < int (length ipAddresses)
      then Option.bind (batches_from (i + n) n ipAddresses)
             (\<lambda>rest. Some (slice i (i + n) ipAddresses # rest))
      else Some [])"

text \<open>
  The loop for any step. With the step \<^verbatim>\<open>-0\<close> the index stays 0, as with the step 0.
  With the step \<^verbatim>\<open>NaN\<close> the first slice is \<^verbatim>\<open>slice(0, NaN)\<close>, which is empty, and the
  index is \<^verbatim>\<open>NaN\<close> afterwards, which ends the loop. With the step \<^verbatim>\<open>Infinity\<close> the first
  slice is the whole array and the loop stops after it. With the step \<^verbatim>\<open>-Infinity\<close> the
  index is \<^verbatim>\<open>-Infinity\<close> from the second round on, and the loop never ends.
\<close>

definition batchLoop :: "jsnum \<Rightarrow> 'a list \<Rightarrow> 'a list list option" where
  "batchLoop step ipAddresses =
     (case step of
        Number n \<Rightarrow> batches_from 0 n ipAddresses
      | NegZero \<Rightarrow> batches_from 0 0 ipAddresses
      | NotANumber \<Rightarrow> (if 0 < length ipAddresses then Some [[]] else Some [])
      | Infinity \<Rightarrow> (if 0 < length ipAddresses then Some [ipAddresses] else Some [])
      | NegInfinity \<Rightarrow> (if 0 < length ipAddresses then None else Some []))"

definition batches :: "nat \<Rightarrow> jsnum \<Rightarrow> 'a list \<Rightarrow> 'a list list option" where
  "batches maxWorkers maxBatchSize ipAddresses =
     (let ipCount = length ipAddresses
      in batchLoop (batchSize ipCount (optimalWorkerCount maxWorkers maxBatchSize ipCount))
           ipAddresses)"

text \<open>The slices the loop pushes, as a total function of the number of slices.\<close>

fun slices :: "nat \<Rightarrow> nat \<Rightarrow> nat \<Rightarrow> 'a list \<Rightarrow> 'a list list" where
  "slices 0 i n xs = []"
| "slices (Suc k) i n xs = take n (drop i xs) # slices k (i + n) n xs"

text \<open>The number of rounds of the loop from index \<open>i\<close>: \<open>\<lceil>(length xs - i) / n\<rceil>\<close>.\<close>

definition rounds :: "nat \<Rightarrow> nat \<Rightarrow> nat \<Rightarrow> nat" where
  "rounds i n len = (len - i + n - 1) div n"


subsection \<open>The worker thread (\<^verbatim>\<open>workers/pingWorker.js\<close>)\<close>



subsection \<open>Batches and retries (\<^verbatim>\<open>services/pingService.js\<close>)\<close>




subsection \<open>The \<^verbatim>\<open>Downtime\<close> model\<close>

definition recordDowntime :: "env \<Rightarrow> millis \<Rightarrow> address \<Rightarrow> db \<Rightarrow> (string + downtime) \<times> db" where
  "recordDowntime env now a db =
     (let downtimeRecord =
            \<lparr>ipAddress = a, timestamp = now, duration = None, reason = ''Ping timeout''\<rparr>
      in case db_error env (SaveDowntime a) of
           Some message \<Rightarrow> (Inl message, db)
         | None \<Rightarrow> (Inr downtimeRecord, db\<lparr>downtimes := downtimes db @ [downtimeRecord]\<rparr>))"

text \<open>
  An update of one document: the first of the collection that matches the filter is
  replaced; with no match the collection stays as it is.
\<close>

fun updateFirst :: "('a \<Rightarrow> bool) \<Rightarrow> ('a \<Rightarrow> 'a) \<Rightarrow> 'a list \<Rightarrow> 'a list" where
  "updateFirst p f [] = []"
| "updateFirst p f (doc # docs) = (if p doc then f doc # docs else doc # updateFirst p f docs)"

text \<open>
  \<^verbatim>\<open>findOne({ ipAddress, duration: null }).sort({ timestamp: -1 })\<close> looks among the open
  records of the address for one with the greatest timestamp; \<open>latestTimestamp\<close> is that
  timestamp. Of several open records with this timestamp, the one inserted first stands
  for the one MongoDB picks; \<^verbatim>\<open>findByIdAndUpdate\<close> then writes to that very record.
\<close>

definition isOpen :: "address \<Rightarrow> downtime \<Rightarrow> bool" where
  "isOpen a d = (ipAddress d = a \<and> downtime.duration d = None)"

definition latestTimestamp :: "downtime list \<Rightarrow> millis option" where
  "latestTimestamp ds =
     (case ds of
        [] \<Rightarrow> None
      | d # rest \<Rightarrow> Some (fold (\<lambda>e t. max (timestamp e) t) rest (timestamp d)))"

definition updateDuration :: "env \<Rightarrow> millis \<Rightarrow> address \<Rightarrow> db \<Rightarrow> (string + duration_update) \<times> db" where
  "updateDuration env now a db =
     (case db_error env (FindOpenDowntime a) of
        Some message \<Rightarrow> (Inl message, db)
      | None \<Rightarrow>
          (case latestTimestamp (filter (isOpen a) (downtimes db)) of
             Some t \<Rightarrow>
               (let d = now - t
                in case db_error env (SetDuration a) of
                     Some message \<Rightarrow> (Inl message, db)
                   | None \<Rightarrow>
                       (Inr \<lparr>duration_update.updated = True, duration = Some d\<rparr>,
                        db\<lparr>downtimes :=
                             updateFirst (\<lambda>e. isOpen a e \<and> timestamp e = t)
                               (\<lambda>e. e\<lparr>downtime.duration := Some d\<rparr>) (downtimes db)\<rparr>))
           | None \<Rightarrow> (Inr \<lparr>duration_update.updated = False, duration = None\<rparr>, db)))"

subsection \<open>The \<^verbatim>\<open>IP\<close> model\<close>

text \<open>
  \<^verbatim>\<open>updateOne\<close> and \<^verbatim>\<open>findOneAndUpdate\<close> with the filter \<^verbatim>\<open>{ address }\<close> and no
  \<^verbatim>\<open>upsert\<close>: the first document with the address is updated; with none, nothing is.
\<close>

definition updateOne :: "address \<Rightarrow> (ip \<Rightarrow> ip) \<Rightarrow> ip list \<Rightarrow> ip list" where
  "updateOne a f docs = updateFirst (\<lambda>doc. ip.address doc = a) f docs"

text \<open>
  The update of \<^verbatim>\<open>updatePingResults\<close> on a change to Down:
  \<^verbatim>\<open>{ lastDowntime: new Date(), $inc: { downtimeCount: 1 } }\<close>.
\<close>

definition findOneAndUpdate :: "env \<Rightarrow> millis \<Rightarrow> address \<Rightarrow> db \<Rightarrow> (string + unit) \<times> db" where
  "findOneAndUpdate env now a db =
     (case db_error env (MarkDowntime a) of
        Some message \<Rightarrow> (Inl message, db)
      | None \<Rightarrow>
          (Inr (),
           db\<lparr>ips := updateOne a
                  (\<lambda>doc. doc\<lparr>lastDowntime := Some now, downtimeCount := downtimeCount doc + 1\<rparr>)
                  (ips db)\<rparr>))"

text \<open>
  One operation of \<^verbatim>\<open>bulkUpdateStatus\<close>. \<^verbatim>\<open>update.time || null\<close> is \<^verbatim>\<open>null\<close> for the
  latency 0 as well; the empty \<^verbatim>\<open>$inc\<close> of a live host changes nothing, and
  \<^verbatim>\<open>$setOnInsert\<close> writes nothing, since no operation inserts. An operation whose time
  is \<^verbatim>\<open>'unknown'\<close> never reaches the storage (see \<open>castable\<close> below), so the value given
  for it here is never written.
\<close>

definition bulkOp :: "millis \<Rightarrow> ping \<Rightarrow> ip \<Rightarrow> ip" where
  "bulkOp now update doc =
     doc\<lparr>status := (if alive update then Up else Down),
         lastChecked := now,
         responseTime := (case time update of
                            Millis t \<Rightarrow> if t = 0 then None else Some t
                          | NoTime \<Rightarrow> None
                          | UnknownTime \<Rightarrow> None),
         downtimeCount := (if alive update then downtimeCount doc else downtimeCount doc + 1)\<rparr>"

text \<open>
  \<^verbatim>\<open>responseTime\<close> is a Number field. The string \<^verbatim>\<open>'unknown'\<close> cannot be cast to it, and
  Mongoose leaves an operation that fails the cast out of an unordered bulk write, without
  an error for the caller: only the operations that can be cast reach the storage.
\<close>

definition castable :: "ping \<Rightarrow> bool" where
  "castable update = (time update \<noteq> UnknownTime)"

text \<open>
  The write is unordered (\<^verbatim>\<open>{ ordered: false }\<close>): the operations that reach the storage,
  in the order in which they are carried out there.
\<close>

definition bulkOps :: "env \<Rightarrow> ping list \<Rightarrow> ping list" where
  "bulkOps env updates =
     filter castable (map (\<lambda>i. updates ! i) (sort_key (bulk_rank env) [0..<length updates]))"

definition applyOps :: "millis \<Rightarrow> ping list \<Rightarrow> ip list \<Rightarrow> ip list" where
  "applyOps now ops docs = fold (\<lambda>update. updateOne (address update) (bulkOp now update)) ops docs"

text \<open>
  \<^verbatim>\<open>matchedCount\<close> counts the operations that find a document, \<^verbatim>\<open>modifiedCount\<close> those
  that change the document they find.
\<close>

definition bulkUpdateStatus :: "env \<Rightarrow> millis \<Rightarrow> ping list \<Rightarrow> db \<Rightarrow> (string + bulk_result) \<times> db" where
  "bulkUpdateStatus env now updates db =
     (if updates = [] then (Inr \<lparr>matchedCount = 0, modifiedCount = 0\<rparr>, db)
      else case db_error env BulkWrite of
             Some message \<Rightarrow> (Inl message, db)
           | None \<Rightarrow>
               (let ops = bulkOps env updates;
                    matched = filter (\<lambda>update. address update \<in> ip.address ` set (ips db)) ops;
                    modified = filter (\<lambda>k. applyOps now (take (Suc k) ops) (ips db)
                                             \<noteq> applyOps now (take k ops) (ips db))
                                 [0..<length ops]
                in (Inr \<lparr>matchedCount = length matched, modifiedCount = length modified\<rparr>,
                    db\<lparr>ips := applyOps now ops (ips db)\<rparr>)))"

subsection \<open>Reconciliation (\<^verbatim>\<open>updatePingResults\<close>)\<close>

text \<open>\<^verbatim>\<open>currentIps.forEach(ip => currentStatusMap.set(ip.address, ip.status))\<close>\<close>

definition currentStatusMap :: "ip list \<Rightarrow> address \<rightharpoonup> status" where
  "currentStatusMap currentIps = fold (\<lambda>doc m. m(ip.address doc \<mapsto> status doc)) currentIps Map.empty"

text \<open>
  The \<^verbatim>\<open>results.forEach\<close> that fills \<^verbatim>\<open>statusChanges\<close>. A stored status is one of
  three non-empty strings, all of them true in a condition; \<^verbatim>\<open>undefined\<close>, the answer of
  the map for an address without a document, is false. (The same loop fills
  \<^verbatim>\<open>ipStatusMap\<close>, which nothing reads.)
\<close>

fun detectChanges :: "(address \<rightharpoonup> status) \<Rightarrow> ping list \<Rightarrow> change list" where
  "detectChanges m [] = []"
| "detectChanges m (result # results) =
     (let newStatus = (if alive result then Up else Down)
      in case m (address result) of
           Some currentStatus \<Rightarrow>
             if currentStatus \<noteq> newStatus
             then \<lparr>change.address = address result, from_status = currentStatus,
                   to_status = newStatus\<rparr> # detectChanges m results
             else detectChanges m results
         | None \<Rightarrow> detectChanges m results)"

text \<open>The body of \<^verbatim>\<open>for (const change of statusChanges)\<close>.\<close>

definition handleChange :: "env \<Rightarrow> millis \<Rightarrow> change \<Rightarrow> db \<Rightarrow> (string + unit) \<times> db" where
  "handleChange env now c db =
     (if to_status c = Down then
        (case recordDowntime env now (change.address c) db of
           (Inl message, db') \<Rightarrow> (Inl message, db')
         | (Inr _, db') \<Rightarrow> findOneAndUpdate env now (change.address c) db')
      else if to_status c = Up \<and> from_status c = Down then
        (case updateDuration env now (change.address c) db of
           (Inl message, db') \<Rightarrow> (Inl message, db')
         | (Inr _, db') \<Rightarrow> (Inr (), db'))
      else (Inr (), db))"

fun handleStatusChanges :: "env \<Rightarrow> millis \<Rightarrow> change list \<Rightarrow> db \<Rightarrow> (string + unit) \<times> db" where
  "handleStatusChanges env now [] db = (Inr (), db)"
| "handleStatusChanges env now (c # cs) db =
     (case handleChange env now c db of
        (Inl message, db') \<Rightarrow> (Inl message, db')
      | (Inr _, db') \<Rightarrow> handleStatusChanges env now cs db')"

text \<open>
  The first part of \<^verbatim>\<open>updatePingResults\<close>: the stored documents of the addresses in
  \<open>results\<close>, their statuses, and the changes detected against them.
\<close>

definition statusChangesOf :: "ping list \<Rightarrow> db \<Rightarrow> change list" where
  "statusChangesOf results db =
     (let currentIps = filter (\<lambda>doc. ip.address doc \<in> set (map address results)) (ips db)
      in detectChanges (currentStatusMap currentIps) results)"

definition updatePingResults :: "env \<Rightarrow> millis \<Rightarrow> ping list \<Rightarrow> db \<Rightarrow> (string + summary) \<times> db" where
  "updatePingResults env now results db =
     (case db_error env (FindStatus (map address results)) of
        Some message \<Rightarrow> (Inl message, db)
      | None \<Rightarrow>
          (let statusChanges = statusChangesOf results db
           in case handleStatusChanges env now statusChanges db of
                (Inl message, db') \<Rightarrow> (Inl message, db')
              | (Inr _, db') \<Rightarrow>
                  (case bulkUpdateStatus env now results db' of
                     (Inl message, db'') \<Rightarrow> (Inl message, db'')
                   | (Inr bulkUpdateResult, db'') \<Rightarrow>
                       (Inr \<lparr>summary.total = length results,
                             updated = modifiedCount bulkUpdateResult,
                             statusChanges = length statusChanges\<rparr>, db''))))"

subsection \<open>A cycle (\<^verbatim>\<open>runPingCycle\<close>)\<close>





subsection \<open>The driver (\<^verbatim>\<open>startPingService\<close> in \<^verbatim>\<open>server.js\<close>)\<close>

text \<open>
  The driver owns a timer and the cycles it has started. A cycle in flight is either still
  probing or already reconciling (inside \<^verbatim>\<open>updatePingResults\<close>); the state of the
  driver is the list of the cycles in flight, oldest first. What happens next is decided by
  the event loop: the timer fires, the probes of a cycle are all in, or the promise of a
  cycle settles.
\<close>

datatype phase = Probing | Reconciling

datatype event = Tick | ProbesDone nat | Settled nat

type_synonym driver = "phase list"

text \<open>
  \<^verbatim>\<open>startPingService\<close> calls \<^verbatim>\<open>runPingCycle()\<close> without awaiting it and then installs
  \<^verbatim>\<open>setInterval(async () => { ... await pingService.runPingCycle() ... }, PING_INTERVAL)\<close>:
  when it returns, one cycle is in flight. Each firing of the timer runs the callback,
  which starts a cycle; nothing in the callback looks at the cycles already in flight,
  and the \<^verbatim>\<open>await\<close> in it suspends that one callback only.
\<close>

definition startPingService :: driver where
  "startPingService = [Probing]"

fun step :: "event \<Rightarrow> driver \<Rightarrow> driver" where
  "step Tick s = s @ [Probing]"
| "step (ProbesDone k) s =
     (if k < length s \<and> s ! k = Probing then s[k := Reconciling] else s)"
| "step (Settled k) s =
     (if k < length s \<and> s ! k = Reconciling then take k s @ drop (Suc k) s else s)"

definition run :: "event list \<Rightarrow> driver \<Rightarrow> driver" where
  "run es s = fold step es s"

subsection \<open>What is stored about one address\<close>

text \<open>
  The downtime records of an address, in insertion order; the document of an address (the
  first, which is the one every update reaches); whether every storage call succeeds.
\<close>

definition eventsOf :: "address \<Rightarrow> db \<Rightarrow> downtime list" where
  "eventsOf a db = filter (\<lambda>d. ipAddress d = a) (downtimes db)"

definition docOf :: "address \<Rightarrow> db \<Rightarrow> ip option" where
  "docOf a db = find (\<lambda>doc. ip.address doc = a) (ips db)"

definition reliable :: "env \<Rightarrow> bool" where
  "reliable env = (\<forall>call. db_error env call = None)"

text \<open>
  The effect of \<^verbatim>\<open>updateDuration\<close> on a list of downtime records, and the effect of
  handling one change of an address on what is stored about that address.
\<close>

definition closeLatest :: "millis \<Rightarrow> address \<Rightarrow> downtime list \<Rightarrow> downtime list" where
  "closeLatest now a ds =
     (case latestTimestamp (filter (isOpen a) ds) of
        None \<Rightarrow> ds
      | Some t \<Rightarrow>
          updateFirst (\<lambda>e. isOpen a e \<and> timestamp e = t)
            (\<lambda>e. e\<lparr>downtime.duration := Some (now - t)\<rparr>) ds)"

definition opened :: "address \<Rightarrow> millis \<Rightarrow> downtime" where
  "opened a now = \<lparr>ipAddress = a, timestamp = now, duration = None, reason = ''Ping timeout''\<rparr>"

definition marked :: "millis \<Rightarrow> ip \<Rightarrow> ip" where
  "marked now doc = doc\<lparr>lastDowntime := Some now, downtimeCount := downtimeCount doc + 1\<rparr>"

definition applyTo :: "millis \<Rightarrow> address \<Rightarrow> change \<Rightarrow> downtime list \<times> ip option \<Rightarrow> downtime list \<times> ip option" where
  "applyTo now a c v =
     (if to_status c = Down then (fst v @ [opened a now], map_option (marked now) (snd v))
      else if to_status c = Up \<and> from_status c = Down then (closeLatest now a (fst v), snd v)
      else v)"

subsection \<open>Serial reconciliation\<close>




subsection \<open>Sample inputs\<close>

text \<open>
  A freshly registered target, as the defaults of \<^verbatim>\<open>ipSchema\<close> make it but for the
  status; an environment in which nothing fails and every host answers; one whose worker
  threads always stop with an error; one whose storage rejects every call; one whose
  storage rejects the bulk write only; one in which no host answers, so that the ping
  library reports \<open>alive = False\<close> and the time \<^verbatim>\<open>'unknown'\<close>; the default configuration on
  a machine with four or more processors. In all of them a bulk write is carried out in
  the order of the request.
\<close>

definition target :: "address \<Rightarrow> status \<Rightarrow> ip" where
  "target a s =
     \<lparr>ip.address = a, status = s, downtimeCount = 0, lastDowntime = None, lastChecked = 0,
      responseTime = None\<rparr>"

definition healthy :: env where
  "healthy =
     \<lparr>db_error = (\<lambda>call. None),
      worker_error = (\<lambda>batch retries. None),
      probe = (\<lambda>host. Inr \<lparr>reply.alive = True, time = Millis 12, output_text = []\<rparr>),
      bulk_rank = (\<lambda>i. i)\<rparr>"






section \<open>Properties\<close>

subsection \<open>The batch loop\<close>

lemma batches_from_done: "int (length xs) \<le> i \<Longrightarrow> batches_from i n xs = Some []"
  by (subst batches_from.simps) simp

lemma batches_from_step:
  "i < int (length xs) \<Longrightarrow>
   batches_from i n xs =
     Option.bind (batches_from (i + n) n xs) (\<lambda>rest. Some (slice i (i + n) xs # rest))"
  by (subst batches_from.simps) simp


lemma slice_nat: "slice (int i) (int (i + n)) xs = take n (drop i xs)"
proof (cases "i \<le> length xs")
  case True
  then have "slice (int i) (int (i + n)) xs = take (min n (length xs - i)) (drop i xs)"
    by (auto simp: slice_def Let_def min_def intro: arg_cong2 [where f = take])
  also have "\<dots> = take n (drop i xs)" by (simp add: min_def)
  finally show ?thesis .
next
  case False
  then show ?thesis by (simp add: slice_def Let_def min_def)
qed

lemma length_slices: "length (slices k i n xs) = k"
  by (induction k arbitrary: i) auto

lemma nth_slices: "j < k \<Longrightarrow> slices k i n xs ! j = take n (drop (i + j * n) xs)"
proof (induction k arbitrary: i j)
  case 0
  then show ?case by simp
next
  case (Suc k)
  show ?case
  proof (cases j)
    case 0
    then show ?thesis by simp
  next
    case (Suc j')
    with Suc.prems have "j' < k" by simp
    from Suc.IH [OF this, of "i + n"] Suc show ?thesis
      by (simp add: add.assoc add.commute)
  qed
qed

lemma concat_slices:
  "0 < n \<Longrightarrow> concat (slices k i n xs) = take (k * n) (drop i xs)"
proof (induction k arbitrary: i)
  case 0
  then show ?case by simp
next
  case (Suc k)
  have "take n (drop i xs) @ take (k * n) (drop (i + n) xs) = take (n + k * n) (drop i xs)"
    by (simp add: take_add add.commute)
  with Suc show ?case by simp
qed

lemma rounds_done: "len \<le> i \<Longrightarrow> 0 < n \<Longrightarrow> rounds i n len = 0"
  by (simp add: rounds_def)

lemma rounds_step: "i < len \<Longrightarrow> 0 < n \<Longrightarrow> rounds i n len = Suc (rounds (i + n) n len)"
proof -
  assume a: "i < len" "0 < n"
  show ?thesis
  proof (cases "len \<le> i + n")
    case True
    with a have "len - i + n - 1 < 2 * n" "n \<le> len - i + n - 1" by simp_all
    then have "(len - i + n - 1) div n = 1"
      by (intro div_nat_eqI) simp_all
    with True a show ?thesis by (simp add: rounds_def)
  next
    case False
    define m where "m = len - (i + n) + n - 1"
    from False a have "len - i + n - 1 = m + n" by (simp add: m_def)
    moreover from a have "(m + n) div n = Suc (m div n)" by simp
    ultimately show ?thesis by (simp only: rounds_def m_def)
  qed
qed

lemma batches_from_slices:
  "0 < n \<Longrightarrow>
   batches_from (int i) (int n) xs = Some (slices (rounds i n (length xs)) i n xs)"
proof (induction "length xs - i" arbitrary: i rule: less_induct)
  case less
  show ?case
  proof (cases "i < length xs")
    case False
    with less.prems show ?thesis
      by (simp add: batches_from_done rounds_done)
  next
    case True
    with less.prems have "length xs - (i + n) < length xs - i" by simp
    from less.hyps [OF this less.prems] True less.prems show ?thesis
      by (simp add: batches_from_step rounds_step slice_nat flip: of_nat_add)
  qed
qed

subsection \<open>Ceiling division\<close>

lemma ceil_le: "0 < b \<Longrightarrow> (nat \<lceil>real a / real b\<rceil> \<le> k) = (a \<le> k * b)"
proof -
  assume b: "0 < b"
  have "(nat \<lceil>real a / real b\<rceil> \<le> k) = (real a / real b \<le> real k)"
    by (simp add: nat_ceiling_le_eq)
  also from b have "\<dots> = (real a \<le> real k * real b)"
    by (simp add: pos_divide_le_eq)
  also have "\<dots> = (a \<le> k * b)"
    by (simp only: of_nat_mult [symmetric] of_nat_le_iff)
  finally show ?thesis .
qed

lemma ceil_div_nat: "0 < b \<Longrightarrow> nat \<lceil>real a / real b\<rceil> = (a + b - 1) div b"
proof (rule antisym)
  assume b: "0 < b"
  have "a + b - 1 = (a + b - 1) div b * b + (a + b - 1) mod b" by simp
  moreover from b have "(a + b - 1) mod b \<le> b - 1"
    by (metis Suc_pred' less_Suc_eq_le mod_less_divisor)
  ultimately have "a \<le> (a + b - 1) div b * b" using b by linarith
  with b show "nat \<lceil>real a / real b\<rceil> \<le> (a + b - 1) div b"
    by (simp only: ceil_le)
next
  assume b: "0 < b"
  define k where "k = nat \<lceil>real a / real b\<rceil>"
  from b have "a \<le> k * b" using ceil_le [of b a k] by (simp add: k_def)
  with b have "a + b - 1 < Suc k * b" by simp
  then have "(a + b - 1) div b < Suc k"
    using b by (simp add: less_mult_imp_div_less)
  then show "(a + b - 1) div b \<le> nat \<lceil>real a / real b\<rceil>" by (simp add: k_def)
qed


lemma ceil_covers: "0 < b \<Longrightarrow> a \<le> nat \<lceil>real a / real b\<rceil> * b"
  using ceil_le [of b a "nat \<lceil>real a / real b\<rceil>"] by simp

lemma rounds_ceil: "0 < n \<Longrightarrow> rounds 0 n len = nat \<lceil>real len / real n\<rceil>"
  by (simp add: rounds_def ceil_div_nat)

lemma ceil_nonneg: "0 \<le> \<lceil>real n / real d\<rceil>"
proof -
  have "0 \<le> real n / real d" by simp
  then have "- 1 < real n / real d" by linarith
  then show ?thesis by simp
qed


lemma ceilQuotient_pos:
  "0 < d \<Longrightarrow> ceilQuotient n (Number (int d)) = Number (int (nat \<lceil>real n / real d\<rceil>))"
  using ceil_nonneg [of n d] by (simp add: ceilQuotient_def)

lemma batches_finite:
  assumes "0 < maxWorkers" and "0 < maxBatchSize" and "0 < length xs"
      and "w = min maxWorkers (nat \<lceil>real (length xs) / real maxBatchSize\<rceil>)"
      and "n = nat \<lceil>real (length xs) / real w\<rceil>"
  shows "batches maxWorkers (Number (int maxBatchSize)) xs
           = Some (slices (nat \<lceil>real (length xs) / real n\<rceil>) 0 n xs)"
    and "0 < w" and "0 < n"
proof -
  from assms show w: "0 < w" by simp
  with assms show n: "0 < n" by simp
  define c where "c = \<lceil>real (length xs) / real maxBatchSize\<rceil>"
  have c: "0 \<le> c" unfolding c_def by (rule ceil_nonneg)
  then have "min (int maxWorkers) c = int (min maxWorkers (nat c))" by linarith
  with assms(2) have "optimalWorkerCount maxWorkers (Number (int maxBatchSize)) (length xs)
      = Number (int w)"
    by (simp add: optimalWorkerCount_def ceilQuotient_def minWorkers_def assms(4) c_def)
  moreover from w have "batchSize (length xs) (Number (int w)) = Number (int n)"
    by (simp add: batchSize_def ceilQuotient_pos assms(5))
  ultimately have "batches maxWorkers (Number (int maxBatchSize)) xs = batches_from 0 (int n) xs"
    by (simp add: batches_def batchLoop_def)
  with n batches_from_slices [of n 0 xs] show "batches maxWorkers (Number (int maxBatchSize)) xs
           = Some (slices (nat \<lceil>real (length xs) / real n\<rceil>) 0 n xs)"
    by (simp add: rounds_ceil)
qed






subsection \<open>Partition sizing\<close>

text \<open>
  Claim C10. For a non-empty list of \<open>N\<close> addresses and positive \<open>maxWorkers\<close> and
  \<open>maxBatchSize\<close>, the batch loop returns; with
  \<open>workerCount = min maxWorkers \<lceil>N / maxBatchSize\<rceil>\<close> and \<open>size = \<lceil>N / workerCount\<rceil>\<close>
  it yields \<open>\<lceil>N / size\<rceil>\<close> batches, at most \<open>workerCount\<close> of them, the \<open>k\<close>-th being the
  slice of \<open>size\<close> addresses from position \<open>k * size\<close>, and together they are the whole
  list in order. For 130 addresses, 4 workers and a maximal batch size of 50 the batches
  have the sizes 44, 44 and 42, in this order.
\<close>

theorem partition_sizing:
  "0 < maxWorkers \<Longrightarrow> 0 < maxBatchSize \<Longrightarrow> ipAddresses \<noteq> [] \<Longrightarrow>
   (let N = length ipAddresses;
        workerCount = min maxWorkers (nat \<lceil>real N / real maxBatchSize\<rceil>);
        size = nat \<lceil>real N / real workerCount\<rceil>
    in \<exists>bs. batches maxWorkers (Number (int maxBatchSize)) ipAddresses = Some bs
            \<and> length bs = nat \<lceil>real N / real size\<rceil>
            \<and> length bs \<le> workerCount
            \<and> (\<forall>k<length bs. bs ! k = take size (drop (k * size) ipAddresses))
            \<and> concat bs = ipAddresses)
   \<and> (maxWorkers = 4 \<and> maxBatchSize = 50 \<and> length ipAddresses = 130 \<longrightarrow>
        map_option (map length) (batches maxWorkers (Number (int maxBatchSize)) ipAddresses) = Some [44, 44, 42])"
proof (intro conjI impI)
  assume a: "0 < maxWorkers" "0 < maxBatchSize" "ipAddresses \<noteq> []"
  define N where "N = length ipAddresses"
  define w where "w = min maxWorkers (nat \<lceil>real N / real maxBatchSize\<rceil>)"
  define n where "n = nat \<lceil>real N / real w\<rceil>"
  define k where "k = nat \<lceil>real N / real n\<rceil>"
  from a have N: "0 < N" by (simp add: N_def)
  with a have w: "0 < w" by (simp add: w_def)
  with N have n: "0 < n" by (simp add: n_def)
  from a have "0 < length ipAddresses" by simp
  from batches_finite(1) [OF a(1,2) this, of w n]
  have bs: "batches maxWorkers (Number (int maxBatchSize)) ipAddresses = Some (slices k 0 n ipAddresses)"
    by (simp add: w_def n_def k_def N_def)
  have "N \<le> n * w" using ceil_covers [OF w, of N] by (simp add: n_def)
  then have "N \<le> w * n" by (simp add: mult.commute)
  with n have kw: "k \<le> w" unfolding k_def by (simp only: ceil_le)
  have "N \<le> k * n" using ceil_covers [OF n, of N] by (simp add: k_def)
  with n have cc: "concat (slices k 0 n ipAddresses) = ipAddresses"
    by (simp add: concat_slices N_def)
  have "\<exists>bs. batches maxWorkers (Number (int maxBatchSize)) ipAddresses = Some bs
            \<and> length bs = k \<and> length bs \<le> w
            \<and> (\<forall>j<length bs. bs ! j = take n (drop (j * n) ipAddresses))
            \<and> concat bs = ipAddresses"
    using bs kw cc by (simp add: length_slices nth_slices)
  then show "let N = length ipAddresses;
        workerCount = min maxWorkers (nat \<lceil>real N / real maxBatchSize\<rceil>);
        size = nat \<lceil>real N / real workerCount\<rceil>
    in \<exists>bs. batches maxWorkers (Number (int maxBatchSize)) ipAddresses = Some bs
            \<and> length bs = nat \<lceil>real N / real size\<rceil>
            \<and> length bs \<le> workerCount
            \<and> (\<forall>k<length bs. bs ! k = take size (drop (k * size) ipAddresses))
            \<and> concat bs = ipAddresses"
    unfolding Let_def k_def n_def w_def N_def .
next
  assume e: "maxWorkers = 4 \<and> maxBatchSize = 50 \<and> length ipAddresses = 130"
  have "batches 4 (Number (int 50)) ipAddresses = Some (slices 3 0 44 ipAddresses)"
    using batches_finite(1) [of 4 50 ipAddresses 3 44] e by simp
  with e show "map_option (map length) (batches maxWorkers (Number (int maxBatchSize)) ipAddresses) = Some [44, 44, 42]"
    by (simp add: numeral_3_eq_3)
qed

theorem partition_sizing_witness:
  "(0::nat) < 4 \<and> (0::nat) < 50 \<and> replicate 130 ''10.0.0.1'' \<noteq> []
   \<and> map_option (map length) (batches 4 (Number 50) (replicate 130 ''10.0.0.1'')) = Some [44, 44, 42]"
  using partition_sizing [of 4 50 "replicate 130 ''10.0.0.1''"] by simp


subsection \<open>A negative batch size\<close>




subsection \<open>Probing: one outcome per address\<close>












subsection \<open>The ways a cycle can go\<close>




subsection \<open>Reconciliation without storage failures\<close>

lemma handleChange_reliable:
  "\<forall>c. db_error env c = None \<Longrightarrow> fst (handleChange env now c db) = Inr ()"
  by (simp add: handleChange_def recordDowntime_def findOneAndUpdate_def updateDuration_def
      Let_def split: option.splits prod.splits sum.splits)

lemma handleStatusChanges_reliable:
  "\<forall>c. db_error env c = None \<Longrightarrow> fst (handleStatusChanges env now cs db) = Inr ()"
proof (induction cs arbitrary: db)
  case Nil
  show ?case by simp
next
  case (Cons c cs)
  obtain db1 where "handleChange env now c db = (Inr (), db1)"
    using handleChange_reliable [OF Cons.prems, of now c db]
    by (cases "handleChange env now c db") simp
  with Cons show ?case by simp
qed



subsection \<open>Coverage\<close>




subsection \<open>Retry exhaustion\<close>





subsection \<open>Failures stay inside the cycle\<close>




subsection \<open>Updating the first match\<close>

lemma updateFirst_none: "\<forall>x\<in>set xs. \<not> p x \<Longrightarrow> updateFirst p f xs = xs"
  by (induction xs) auto

lemma updateFirst_split:
  "\<exists>x\<in>set xs. p x \<Longrightarrow>
   \<exists>pre d post. xs = pre @ d # post \<and> p d \<and> (\<forall>e\<in>set pre. \<not> p e)
      \<and> updateFirst p f xs = pre @ f d # post"
proof (induction xs)
  case Nil
  then show ?case by simp
next
  case (Cons x xs)
  show ?case
  proof (cases "p x")
    case True
    then have "x # xs = [] @ x # xs \<and> p x \<and> (\<forall>e\<in>set []. \<not> p e)
        \<and> updateFirst p f (x # xs) = [] @ f x # xs" by simp
    then show ?thesis by blast
  next
    case False
    with Cons.prems have "\<exists>y\<in>set xs. p y" by auto
    from Cons.IH [OF this] obtain pre d post where
      "xs = pre @ d # post" "p d" "\<forall>e\<in>set pre. \<not> p e" "updateFirst p f xs = pre @ f d # post"
      by blast
    with False have "x # xs = (x # pre) @ d # post \<and> p d \<and> (\<forall>e\<in>set (x # pre). \<not> p e)
        \<and> updateFirst p f (x # xs) = (x # pre) @ f d # post" by simp
    then show ?thesis by blast
  qed
qed

lemma filter_updateFirst_same:
  assumes "\<And>x. p x \<Longrightarrow> q x" and "\<And>x. q (f x) = q x"
  shows "filter q (updateFirst p f xs) = updateFirst p f (filter q xs)"
  using assms by (induction xs) auto

lemma filter_updateFirst_other:
  assumes "\<And>x. p x \<Longrightarrow> \<not> q x \<and> \<not> q (f x)"
  shows "filter q (updateFirst p f xs) = filter q xs"
  using assms by (induction xs) auto

lemma find_updateFirst_same:
  assumes "\<And>x. q (f x) = q x"
  shows "find q (updateFirst q f xs) = map_option f (find q xs)"
  using assms by (induction xs) auto

lemma find_updateFirst_other:
  assumes "\<And>x. p x \<Longrightarrow> \<not> q x \<and> \<not> q (f x)"
  shows "find q (updateFirst p f xs) = find q xs"
  using assms by (induction xs) auto

subsection \<open>The latest open record\<close>

lemma fold_max_timestamp:
  "(\<forall>x\<in>set xs. timestamp x \<le> fold (\<lambda>e t. max (timestamp e) t) xs t0)
   \<and> t0 \<le> fold (\<lambda>e t. max (timestamp e) t) xs t0
   \<and> (fold (\<lambda>e t. max (timestamp e) t) xs t0 = t0
        \<or> (\<exists>x\<in>set xs. timestamp x = fold (\<lambda>e t. max (timestamp e) t) xs t0))"
proof (induction xs arbitrary: t0)
  case Nil
  show ?case by simp
next
  case (Cons x xs)
  from Cons.IH [of "max (timestamp x) t0"] show ?case
    by (auto simp: max_def split: if_splits)
qed

lemma latestTimestamp_Some:
  "latestTimestamp xs = Some t \<Longrightarrow>
   (\<exists>x\<in>set xs. timestamp x = t) \<and> (\<forall>x\<in>set xs. timestamp x \<le> t)"
proof (cases xs)
  case Nil
  assume "latestTimestamp xs = Some t"
  with Nil show ?thesis by (simp add: latestTimestamp_def)
next
  case (Cons d rest)
  assume "latestTimestamp xs = Some t"
  with Cons have t: "t = fold (\<lambda>e t. max (timestamp e) t) rest (timestamp d)"
    by (simp add: latestTimestamp_def)
  from fold_max_timestamp [of rest "timestamp d"] show ?thesis
    unfolding Cons t by auto
qed

lemma latestTimestamp_None: "(latestTimestamp xs = None) = (xs = [])"
  by (cases xs) (simp_all add: latestTimestamp_def)

lemma closeLatest_none:
  "filter (isOpen a) ds = [] \<Longrightarrow> closeLatest now a ds = ds"
  by (simp add: closeLatest_def latestTimestamp_def)

lemma closeLatest_some:
  assumes "filter (isOpen a) ds \<noteq> []"
  shows "\<exists>pre d post. ds = pre @ d # post \<and> isOpen a d
          \<and> (\<forall>e\<in>set ds. isOpen a e \<longrightarrow> timestamp e \<le> timestamp d)
          \<and> closeLatest now a ds = pre @ d\<lparr>downtime.duration := Some (now - timestamp d)\<rparr> # post"
proof -
  from assms obtain t where t: "latestTimestamp (filter (isOpen a) ds) = Some t"
    by (cases "latestTimestamp (filter (isOpen a) ds)") (simp_all add: latestTimestamp_None)
  from latestTimestamp_Some [OF t]
  have ex: "\<exists>x\<in>set ds. isOpen a x \<and> timestamp x = t"
    and le: "\<forall>x\<in>set ds. isOpen a x \<longrightarrow> timestamp x \<le> t" by auto
  from updateFirst_split [of ds "\<lambda>e. isOpen a e \<and> timestamp e = t", OF ex]
  obtain pre d post where s: "ds = pre @ d # post" "isOpen a d" "timestamp d = t"
    "updateFirst (\<lambda>e. isOpen a e \<and> timestamp e = t)
       (\<lambda>e. e\<lparr>downtime.duration := Some (now - t)\<rparr>) ds
     = pre @ d\<lparr>downtime.duration := Some (now - t)\<rparr> # post"
    by blast
  with t le have "ds = pre @ d # post \<and> isOpen a d
          \<and> (\<forall>e\<in>set ds. isOpen a e \<longrightarrow> timestamp e \<le> timestamp d)
          \<and> closeLatest now a ds = pre @ d\<lparr>downtime.duration := Some (now - timestamp d)\<rparr> # post"
    by (simp add: closeLatest_def)
  then show ?thesis by blast
qed

lemma filter_closeLatest_same:
  "filter (\<lambda>d. ipAddress d = a) (closeLatest now a ds)
     = closeLatest now a (filter (\<lambda>d. ipAddress d = a) ds)"
proof -
  have "filter (isOpen a) (filter (\<lambda>d. ipAddress d = a) ds) = filter (isOpen a) ds"
    by (auto simp: isOpen_def intro: filter_cong)
  moreover have "filter (\<lambda>d. ipAddress d = a)
        (updateFirst (\<lambda>e. isOpen a e \<and> timestamp e = t) (\<lambda>e. e\<lparr>downtime.duration := Some (now - t)\<rparr>) ds)
      = updateFirst (\<lambda>e. isOpen a e \<and> timestamp e = t) (\<lambda>e. e\<lparr>downtime.duration := Some (now - t)\<rparr>)
          (filter (\<lambda>d. ipAddress d = a) ds)" for t
    by (rule filter_updateFirst_same) (simp_all add: isOpen_def)
  ultimately show ?thesis
    by (simp add: closeLatest_def split: option.splits)
qed

lemma filter_closeLatest_other:
  assumes "b \<noteq> a"
  shows "filter (\<lambda>d. ipAddress d = a) (closeLatest now b ds) = filter (\<lambda>d. ipAddress d = a) ds"
proof -
  have "filter (\<lambda>d. ipAddress d = a)
        (updateFirst (\<lambda>e. isOpen b e \<and> timestamp e = t) (\<lambda>e. e\<lparr>downtime.duration := Some (now - t)\<rparr>) ds)
      = filter (\<lambda>d. ipAddress d = a) ds" for t
    using assms by (intro filter_updateFirst_other) (simp add: isOpen_def)
  then show ?thesis
    by (simp add: closeLatest_def split: option.splits)
qed

subsection \<open>The storage calls when none fails\<close>

lemma recordDowntime_reliable:
  "reliable env \<Longrightarrow>
   recordDowntime env now a db =
     (Inr (opened a now), db\<lparr>downtimes := downtimes db @ [opened a now]\<rparr>)"
  by (simp add: reliable_def recordDowntime_def opened_def Let_def)

lemma findOneAndUpdate_reliable:
  "reliable env \<Longrightarrow>
   findOneAndUpdate env now a db = (Inr (), db\<lparr>ips := updateOne a (marked now) (ips db)\<rparr>)"
  by (simp add: reliable_def findOneAndUpdate_def marked_def [abs_def])

lemma updateDuration_reliable:
  "reliable env \<Longrightarrow>
   (\<exists>r. fst (updateDuration env now a db) = Inr r)
   \<and> snd (updateDuration env now a db) = db\<lparr>downtimes := closeLatest now a (downtimes db)\<rparr>"
  by (simp add: reliable_def updateDuration_def closeLatest_def Let_def split: option.splits)

lemma updateDuration_no_open:
  "reliable env \<Longrightarrow> filter (isOpen a) (downtimes db) = [] \<Longrightarrow>
   updateDuration env now a db = (Inr \<lparr>duration_update.updated = False, duration = None\<rparr>, db)"
  by (simp add: reliable_def updateDuration_def latestTimestamp_def)

lemma handleChange_db:
  "reliable env \<Longrightarrow>
   handleChange env now c db =
     (Inr (),
      if to_status c = Down
      then db\<lparr>downtimes := downtimes db @ [opened (change.address c) now],
              ips := updateOne (change.address c) (marked now) (ips db)\<rparr>
      else if to_status c = Up \<and> from_status c = Down
      then db\<lparr>downtimes := closeLatest now (change.address c) (downtimes db)\<rparr>
      else db)"
proof -
  assume r: "reliable env"
  obtain x db1 where u: "updateDuration env now (change.address c) db = (x, db1)"
    by (cases "updateDuration env now (change.address c) db")
  with updateDuration_reliable [OF r, of now "change.address c" db]
  obtain y where "x = Inr y" "db1 = db\<lparr>downtimes := closeLatest now (change.address c) (downtimes db)\<rparr>"
    by auto
  with u r show ?thesis
    by (simp add: handleChange_def recordDowntime_reliable findOneAndUpdate_reliable)
qed

subsection \<open>What reconciliation does to one address\<close>

lemma handleChange_view:
  assumes "reliable env"
  shows "(eventsOf a (snd (handleChange env now c db)), docOf a (snd (handleChange env now c db)))
          = (if change.address c = a then applyTo now a c (eventsOf a db, docOf a db)
             else (eventsOf a db, docOf a db))"
proof (cases "change.address c = a")
  case True
  have "find (\<lambda>doc. ip.address doc = a) (updateFirst (\<lambda>doc. ip.address doc = a) (marked now) docs)
      = map_option (marked now) (find (\<lambda>doc. ip.address doc = a) docs)" for docs
    by (rule find_updateFirst_same) (simp add: marked_def)
  with True show ?thesis
    by (simp add: handleChange_db [OF assms] eventsOf_def docOf_def applyTo_def updateOne_def
        filter_closeLatest_same opened_def)
next
  case False
  have "find (\<lambda>doc. ip.address doc = a)
          (updateFirst (\<lambda>doc. ip.address doc = change.address c) (marked now) docs)
      = find (\<lambda>doc. ip.address doc = a) docs" for docs
    using False by (intro find_updateFirst_other) (simp add: marked_def)
  with False show ?thesis
    by (simp add: handleChange_db [OF assms] eventsOf_def docOf_def updateOne_def
        filter_closeLatest_other opened_def)
qed

lemma handleStatusChanges_view:
  assumes "reliable env"
  shows "(eventsOf a (snd (handleStatusChanges env now cs db)),
          docOf a (snd (handleStatusChanges env now cs db)))
          = fold (applyTo now a) (filter (\<lambda>c. change.address c = a) cs)
              (eventsOf a db, docOf a db)"
proof (induction cs arbitrary: db)
  case Nil
  show ?case by simp
next
  case (Cons c cs)
  obtain db1 where h: "handleChange env now c db = (Inr (), db1)"
    using handleChange_db [OF assms, of now c db] by simp
  then have "snd (handleChange env now c db) = db1" by simp
  with handleChange_view [OF assms, of a now c db]
  have "(eventsOf a db1, docOf a db1)
          = (if change.address c = a then applyTo now a c (eventsOf a db, docOf a db)
             else (eventsOf a db, docOf a db))" by simp
  with h Cons.IH [of db1] show ?case by simp
qed

lemma handleStatusChanges_ok:
  "reliable env \<Longrightarrow> fst (handleStatusChanges env now cs db) = Inr ()"
  using handleStatusChanges_reliable [of env now cs db] by (simp add: reliable_def)

subsection \<open>The operations of a bulk write\<close>

text \<open>
  Whatever the order of the write, the operations that reach the storage are the outcomes
  that can be cast, each once.
\<close>

lemma mset_bulkOps: "mset (bulkOps env updates) = mset (filter castable updates)"
proof -
  have "mset (map (\<lambda>i. updates ! i) (sort_key (bulk_rank env) [0..<length updates]))
      = mset (map (\<lambda>i. updates ! i) [0..<length updates])"
    by (simp only: mset_map mset_sort)
  then show ?thesis by (simp add: bulkOps_def map_nth)
qed

lemma mset_bulkOps_filter:
  "mset (filter P (bulkOps env updates)) = mset (filter castable (filter P updates))"
proof -
  have "mset (filter P (bulkOps env updates)) = filter_mset P (mset (bulkOps env updates))"
    by simp
  also have "\<dots> = filter_mset P (filter_mset castable (mset updates))"
    by (simp add: mset_bulkOps)
  also have "\<dots> = filter_mset castable (filter_mset P (mset updates))"
    by (simp add: filter_filter_mset conj_commute)
  finally show ?thesis by (simp only: mset_filter)
qed


lemma bulkOps_once:
  assumes "filter P updates = [r]"
  shows "filter P (bulkOps env updates) = (if castable r then [r] else [])"
proof -
  have m: "mset (filter P (bulkOps env updates)) = mset (filter castable [r])"
    unfolding mset_bulkOps_filter assms ..
  show ?thesis
  proof (cases "castable r")
    case True
    with m have "mset (filter P (bulkOps env updates)) = {#r#}" by (simp del: mset_filter)
    then have "filter P (bulkOps env updates) = [r]" by (simp only: mset_single_iff)
    with True show ?thesis by simp
  next
    case False
    with m have "mset (filter P (bulkOps env updates)) = {#}" by (simp del: mset_filter)
    then have "filter P (bulkOps env updates) = []" by (simp only: mset_zero_iff)
    with False show ?thesis by simp
  qed
qed

text \<open>A write carried out in the order of the request.\<close>

lemma bulkOps_in_order:
  assumes "\<forall>i j. i \<le> j \<longrightarrow> bulk_rank env i \<le> bulk_rank env j"
  shows "bulkOps env updates = filter castable updates"
proof -
  have "sorted (map (bulk_rank env) [0..<n])" for n
    using assms by (simp add: sorted_iff_nth_mono)
  then have "sort_key (bulk_rank env) [0..<length updates] = [0..<length updates]"
    by (rule sort_key_id_if_sorted)
  then show ?thesis by (simp add: bulkOps_def map_nth)
qed

lemma bulk_fold_doc:
  "find (\<lambda>doc. ip.address doc = a) (applyOps now updates docs)
   = fold (\<lambda>update. map_option (bulkOp now update))
       (filter (\<lambda>update. ping.address update = a) updates) (find (\<lambda>doc. ip.address doc = a) docs)"
  unfolding applyOps_def
proof (induction updates arbitrary: docs)
  case Nil
  show ?case by simp
next
  case (Cons u us)
  show ?case
  proof (cases "ping.address u = a")
    case True
    have "find (\<lambda>doc. ip.address doc = a) (updateFirst (\<lambda>doc. ip.address doc = a) (bulkOp now u) docs)
      = map_option (bulkOp now u) (find (\<lambda>doc. ip.address doc = a) docs)"
      by (rule find_updateFirst_same) (simp add: bulkOp_def)
    with True Cons.IH [of "updateOne (ping.address u) (bulkOp now u) docs"] show ?thesis
      by (simp add: updateOne_def)
  next
    case False
    have "find (\<lambda>doc. ip.address doc = a)
            (updateFirst (\<lambda>doc. ip.address doc = ping.address u) (bulkOp now u) docs)
      = find (\<lambda>doc. ip.address doc = a) docs"
      using False by (intro find_updateFirst_other) (simp add: bulkOp_def)
    with False Cons.IH [of "updateOne (ping.address u) (bulkOp now u) docs"] show ?thesis
      by (simp add: updateOne_def)
  qed
qed

lemma fold_bulk_None: "fold (\<lambda>update. map_option (bulkOp now update)) rs None = None"
  by (induction rs) simp_all

lemma bulkOps_Nil: "bulkOps env [] = []"
  by (simp add: bulkOps_def)

lemma bulkUpdateStatus_view:
  assumes "reliable env"
  shows "eventsOf a (snd (bulkUpdateStatus env now updates db)) = eventsOf a db"
    and "docOf a (snd (bulkUpdateStatus env now updates db))
          = fold (\<lambda>update. map_option (bulkOp now update))
              (filter (\<lambda>update. ping.address update = a) (bulkOps env updates)) (docOf a db)"
    and "\<exists>r. fst (bulkUpdateStatus env now updates db) = Inr r"
  using assms
  by (simp_all add: bulkUpdateStatus_def reliable_def eventsOf_def docOf_def Let_def bulk_fold_doc
      bulkOps_Nil)

lemma detectChanges_filter:
  "filter (\<lambda>c. change.address c = a) (detectChanges m results)
     = detectChanges m (filter (\<lambda>r. ping.address r = a) results)"
  by (induction results) (simp_all add: Let_def split: option.splits)

lemma detectChanges_cong:
  "\<forall>r\<in>set results. m (ping.address r) = m' (ping.address r) \<Longrightarrow>
   detectChanges m results = detectChanges m' results"
  by (induction results) (simp_all add: Let_def split: option.splits)

lemma fold_upd_cong:
  assumes g: "\<And>x m. g x m = m(k x \<mapsto> v x)"
  shows "m a = m' a \<Longrightarrow> fold g xs m a = fold g xs m' a"
proof (induction xs arbitrary: m m')
  case Nil
  then show ?case by simp
next
  case (Cons x xs)
  from Cons.prems have "g x m a = g x m' a"
    by (simp add: g [of x m] g [of x m'])
  from Cons.IH [of "g x m" "g x m'", OF this] show ?case by simp
qed

lemma fold_upd_filter:
  assumes g: "\<And>x m. g x m = m(k x \<mapsto> v x)"
  shows "fold g (filter (\<lambda>x. k x \<in> S) xs) m0 a = (if a \<in> S then fold g xs m0 a else m0 a)"
proof (induction xs arbitrary: m0)
  case Nil
  show ?case by simp
next
  case (Cons x xs)
  show ?case
  proof (cases "k x \<in> S")
    case True
    have "g x m0 a = m0 a" if "a \<notin> S"
      using that True by (auto simp: g [of x m0])
    with True Cons [of "g x m0"] show ?thesis by simp
  next
    case False
    have "g x m0 a = m0 a" if "a \<in> S"
      using that False by (auto simp: g [of x m0])
    with False Cons [of m0] fold_upd_cong [of g k v "g x m0" a m0 xs, OF g]
    show ?thesis by simp
  qed
qed

lemma fold_upd_distinct:
  assumes g: "\<And>x m. g x m = m(k x \<mapsto> v x)"
  shows "distinct (map k xs) \<Longrightarrow>
    fold g xs m0 a = (case find (\<lambda>x. k x = a) xs of Some x \<Rightarrow> Some (v x) | None \<Rightarrow> m0 a)"
proof (induction xs arbitrary: m0)
  case Nil
  show ?case by simp
next
  case (Cons x xs)
  from Cons.prems have d: "distinct (map k xs)" by simp
  show ?case
  proof (cases "k x = a")
    case True
    have "\<forall>y\<in>set xs. k y \<noteq> a"
    proof (intro ballI notI)
      fix y assume "y \<in> set xs" "k y = a"
      with True have "k x \<in> k ` set xs" by (metis imageI)
      with Cons.prems show False by simp
    qed
    then have n: "find (\<lambda>x. k x = a) xs = None"
      by (simp add: find_None_iff)
    have "fold g (x # xs) m0 a = fold g xs (g x m0) a" by simp
    also have "\<dots> = g x m0 a" using Cons.IH [OF d, of "g x m0"] n by simp
    also have "\<dots> = Some (v x)" using True by (simp add: g [of x m0])
    finally show ?thesis using True by simp
  next
    case False
    then have "g x m0 a = m0 a" by (simp add: g [of x m0])
    moreover have "fold g (x # xs) m0 a = fold g xs (g x m0) a" by simp
    ultimately show ?thesis using False Cons.IH [OF d, of "g x m0"]
      by (simp split: option.splits)
  qed
qed

lemma currentStatusMap_filter:
  "currentStatusMap (filter (\<lambda>doc. ip.address doc \<in> S) docs) a
     = (if a \<in> S then currentStatusMap docs a else None)"
  unfolding currentStatusMap_def
  by (rule fold_upd_filter [where v = status, THEN trans]) simp_all

lemma currentStatusMap_distinct:
  "distinct (map ip.address (ips db)) \<Longrightarrow>
   currentStatusMap (ips db) a = map_option status (docOf a db)"
  unfolding currentStatusMap_def docOf_def
  by (subst fold_upd_distinct [where v = status and k = ip.address])
     (simp_all split: option.splits)

lemma statusChangesOf_filter:
  "filter (\<lambda>c. change.address c = a) (statusChangesOf results db)
     = detectChanges (\<lambda>b. currentStatusMap (ips db) a) (filter (\<lambda>r. ping.address r = a) results)"
proof -
  have "\<forall>r\<in>set (filter (\<lambda>r. ping.address r = a) results).
          currentStatusMap (filter (\<lambda>doc. ip.address doc \<in> set (map ping.address results)) (ips db))
            (ping.address r)
          = currentStatusMap (ips db) a"
    by (auto simp: currentStatusMap_filter)
  then show ?thesis
    unfolding statusChangesOf_def Let_def detectChanges_filter
    by (rule detectChanges_cong)
qed

text \<open>
  What is stored about an address after a reconciliation is a function of what was
  stored about it before and of the outcomes for this address, in their order.
\<close>

lemma updatePingResults_view:
  assumes "reliable env"
  shows "eventsOf a (snd (updatePingResults env now results db))
          = fst (fold (applyTo now a)
                  (detectChanges (\<lambda>b. currentStatusMap (ips db) a)
                     (filter (\<lambda>r. ping.address r = a) results))
                  (eventsOf a db, docOf a db))"
    and "docOf a (snd (updatePingResults env now results db))
          = fold (\<lambda>update. map_option (bulkOp now update))
              (filter (\<lambda>r. ping.address r = a) (bulkOps env results))
              (snd (fold (applyTo now a)
                  (detectChanges (\<lambda>b. currentStatusMap (ips db) a)
                     (filter (\<lambda>r. ping.address r = a) results))
                  (eventsOf a db, docOf a db)))"
    and "\<exists>r. fst (updatePingResults env now results db) = Inr r"
proof -
  define cs where "cs = statusChangesOf results db"
  obtain db1 where h: "handleStatusChanges env now cs db = (Inr (), db1)"
    using handleStatusChanges_ok [OF assms, of now cs db]
    by (cases "handleStatusChanges env now cs db") simp
  obtain r db2 where b: "bulkUpdateStatus env now results db1 = (Inr r, db2)"
    using bulkUpdateStatus_view(3) [OF assms, of now results db1]
    by (cases "bulkUpdateStatus env now results db1") auto
  from assms h b have u: "updatePingResults env now results db
      = (Inr \<lparr>summary.total = length results, updated = modifiedCount r,
               statusChanges = length cs\<rparr>, db2)"
    by (simp add: updatePingResults_def reliable_def cs_def Let_def)
  from handleStatusChanges_view [OF assms, of a now cs db] h
  have v1: "fold (applyTo now a)
          (detectChanges (\<lambda>b. currentStatusMap (ips db) a) (filter (\<lambda>r. ping.address r = a) results))
          (eventsOf a db, docOf a db) = (eventsOf a db1, docOf a db1)"
    by (simp add: cs_def statusChangesOf_filter)
  from bulkUpdateStatus_view(1,2) [OF assms, of a now results db1] b
  have v2: "eventsOf a db2 = eventsOf a db1"
    "docOf a db2 = fold (\<lambda>update. map_option (bulkOp now update))
        (filter (\<lambda>update. ping.address update = a) (bulkOps env results)) (docOf a db1)"
    by simp_all
  show "eventsOf a (snd (updatePingResults env now results db))
          = fst (fold (applyTo now a)
                  (detectChanges (\<lambda>b. currentStatusMap (ips db) a)
                     (filter (\<lambda>r. ping.address r = a) results))
                  (eventsOf a db, docOf a db))"
    by (simp only: u v1 v2 fst_conv snd_conv)
  show "docOf a (snd (updatePingResults env now results db))
          = fold (\<lambda>update. map_option (bulkOp now update))
              (filter (\<lambda>r. ping.address r = a) (bulkOps env results))
              (snd (fold (applyTo now a)
                  (detectChanges (\<lambda>b. currentStatusMap (ips db) a)
                     (filter (\<lambda>r. ping.address r = a) results))
                  (eventsOf a db, docOf a db)))"
    by (simp only: u v1 v2 fst_conv snd_conv)
  from u show "\<exists>r. fst (updatePingResults env now results db) = Inr r" by simp
qed

subsection \<open>One outcome for an address\<close>

lemma length_updateFirst: "length (updateFirst p f xs) = length xs"
  by (induction xs) auto

lemma length_closeLatest: "length (closeLatest now a ds) = length ds"
  by (simp add: closeLatest_def length_updateFirst split: option.splits)

lemma open_eventsOf: "filter (isOpen a) (eventsOf a db) = filter (isOpen a) (downtimes db)"
  by (auto simp: eventsOf_def isOpen_def intro: filter_cong)

lemma changes_once:
  "detectChanges (\<lambda>b. st) [r] =
     (case st of
        None \<Rightarrow> []
      | Some s \<Rightarrow>
          if s \<noteq> (if alive r then Up else Down)
          then [\<lparr>change.address = ping.address r, from_status = s,
                 to_status = (if alive r then Up else Down)\<rparr>]
          else [])"
  by (simp add: Let_def split: option.splits)

lemma reconcile_absent:
  assumes "reliable env" and "currentStatusMap (ips db) a = None"
  shows "eventsOf a (snd (updatePingResults env now results db)) = eventsOf a db"
proof -
  have "detectChanges (\<lambda>b. None) rs = []" for rs :: "ping list"
    by (induction rs) simp_all
  with assms updatePingResults_view(1) [OF assms(1), of a now results db] show ?thesis by simp
qed


lemma reconcile_once:
  assumes "reliable env" and "distinct (map ip.address (ips db))"
      and "filter (\<lambda>x. ping.address x = a) results = [r]"
      and "docOf a db = Some doc"
  shows "eventsOf a (snd (updatePingResults env now results db))
          = (if \<not> alive r \<and> status doc \<noteq> Down then eventsOf a db @ [opened a now]
             else if alive r \<and> status doc = Down then closeLatest now a (eventsOf a db)
             else eventsOf a db)"
    and "docOf a (snd (updatePingResults env now results db))
          = Some ((if castable r then bulkOp now r else id)
                    (if \<not> alive r \<and> status doc \<noteq> Down then marked now doc else doc))"
    and "docOf a (snd (handleStatusChanges env now (statusChangesOf results db) db))
          = Some (if \<not> alive r \<and> status doc \<noteq> Down then marked now doc else doc)"
proof -
  from assms(3) have "r \<in> set (filter (\<lambda>x. ping.address x = a) results)" by simp
  then have ra: "ping.address r = a" by simp
  from assms(2,4) have st: "currentStatusMap (ips db) a = Some (status doc)"
    by (simp add: currentStatusMap_distinct)
  have cs: "detectChanges (\<lambda>b. currentStatusMap (ips db) a) (filter (\<lambda>x. ping.address x = a) results)
      = (if status doc \<noteq> (if alive r then Up else Down)
         then [\<lparr>change.address = a, from_status = status doc,
                to_status = (if alive r then Up else Down)\<rparr>]
         else [])"
    unfolding assms(3) st changes_once by (simp add: ra)
  have f: "fold (applyTo now a)
      (detectChanges (\<lambda>b. currentStatusMap (ips db) a) (filter (\<lambda>x. ping.address x = a) results))
      (eventsOf a db, docOf a db)
     = (if \<not> alive r \<and> status doc \<noteq> Down then (eventsOf a db @ [opened a now], Some (marked now doc))
        else if alive r \<and> status doc = Down then (closeLatest now a (eventsOf a db), Some doc)
        else (eventsOf a db, Some doc))"
    unfolding cs using assms(4) by (cases "status doc") (simp_all add: applyTo_def)
  from updatePingResults_view(1) [OF assms(1), of a now results db]
  show "eventsOf a (snd (updatePingResults env now results db))
          = (if \<not> alive r \<and> status doc \<noteq> Down then eventsOf a db @ [opened a now]
             else if alive r \<and> status doc = Down then closeLatest now a (eventsOf a db)
             else eventsOf a db)"
    unfolding f by simp
  from updatePingResults_view(2) [OF assms(1), of a now results db, unfolded f,
      unfolded bulkOps_once [OF assms(3)]]
  show "docOf a (snd (updatePingResults env now results db))
          = Some ((if castable r then bulkOp now r else id)
                    (if \<not> alive r \<and> status doc \<noteq> Down then marked now doc else doc))"
    by simp
  from handleStatusChanges_view [OF assms(1), of a now "statusChangesOf results db" db]
  have "(eventsOf a (snd (handleStatusChanges env now (statusChangesOf results db) db)),
         docOf a (snd (handleStatusChanges env now (statusChangesOf results db) db)))
     = (if \<not> alive r \<and> status doc \<noteq> Down then (eventsOf a db @ [opened a now], Some (marked now doc))
        else if alive r \<and> status doc = Down then (closeLatest now a (eventsOf a db), Some doc)
        else (eventsOf a db, Some doc))"
    unfolding statusChangesOf_filter f .
  then show "docOf a (snd (handleStatusChanges env now (statusChangesOf results db) db))
          = Some (if \<not> alive r \<and> status doc \<noteq> Down then marked now doc else doc)"
    by (auto split: if_splits)
qed

lemmas reconcile_defs =
  updatePingResults_def statusChangesOf_def currentStatusMap_def handleChange_def
  recordDowntime_def findOneAndUpdate_def updateDuration_def latestTimestamp_def isOpen_def
  updateOne_def bulkUpdateStatus_def bulkOps_def applyOps_def castable_def bulkOp_def
  healthy_def target_def Let_def


subsection \<open>Transitions into Down\<close>

text \<open>
  Claim C2, as stated, fails: a target whose recorded status is Unknown, not Up, and whose
  outcome is \<open>alive = False\<close> has its \<open>downtimeCount\<close> changed, its \<open>lastDowntime\<close> set
  and a downtime record opened.
\<close>

theorem transition_counterexample:
  "snd (updatePingResults healthy 5000
         [\<lparr>ping.address = ''10.0.0.1'', alive = False, time = NoTime, error = Some ''Ping failed''\<rparr>]
         \<lparr>ips = [target ''10.0.0.1'' Unknown], downtimes = []\<rparr>)
   = \<lparr>ips = [\<lparr>ip.address = ''10.0.0.1'', status = Down, downtimeCount = 2,
               lastDowntime = Some 5000, lastChecked = 5000, responseTime = None\<rparr>],
      downtimes = [\<lparr>ipAddress = ''10.0.0.1'', timestamp = 5000, duration = None,
                    reason = ''Ping timeout''\<rparr>]\<rparr>
   \<and> downtimeCount (target ''10.0.0.1'' Unknown) = 0"
  by (simp add: reconcile_defs)

text \<open>
  Claim C2, amended. Let the storage calls succeed, the target addresses be unique, and an
  address have a target and exactly one outcome. When and only when the outcome is
  \<open>alive = False\<close> and the recorded status is Up or Unknown (a transition into Down),
  the handling of the status changes increments the \<open>downtimeCount\<close> of the target by
  exactly 1, and the reconciliation sets \<open>lastDowntime\<close> to the time of the reconciliation
  and opens exactly one downtime record for the address, with \<open>duration = None\<close>. For any
  other outcome the handling of the status changes leaves \<open>downtimeCount\<close> as it is, and
  the reconciliation leaves \<open>lastDowntime\<close> and the number of downtime records of the
  address as they are; for an outcome with \<open>alive = True\<close> the \<open>downtimeCount\<close> is
  unchanged after the whole reconciliation.
\<close>

theorem transition_into_down:
  assumes "reliable env" and "distinct (map ip.address (ips db))"
      and "filter (\<lambda>x. ping.address x = a) results = [r]"
      and "docOf a db = Some doc"
  shows "(if \<not> alive r \<and> (status doc = Up \<or> status doc = Unknown)
          then map_option downtimeCount
                 (docOf a (snd (handleStatusChanges env now (statusChangesOf results db) db)))
                 = Some (downtimeCount doc + 1)
             \<and> map_option lastDowntime (docOf a (snd (updatePingResults env now results db)))
                 = Some (Some now)
             \<and> eventsOf a (snd (updatePingResults env now results db))
                 = eventsOf a db @ [\<lparr>ipAddress = a, timestamp = now, duration = None,
                                     reason = ''Ping timeout''\<rparr>]
          else map_option downtimeCount
                 (docOf a (snd (handleStatusChanges env now (statusChangesOf results db) db)))
                 = Some (downtimeCount doc)
             \<and> map_option lastDowntime (docOf a (snd (updatePingResults env now results db)))
                 = Some (lastDowntime doc)
             \<and> length (eventsOf a (snd (updatePingResults env now results db)))
                 = length (eventsOf a db))
         \<and> (alive r \<longrightarrow>
               map_option downtimeCount (docOf a (snd (updatePingResults env now results db)))
                 = Some (downtimeCount doc))"
proof -
  have s: "(status doc = Up \<or> status doc = Unknown) = (status doc \<noteq> Down)"
    by (cases "status doc") simp_all
  show ?thesis
    unfolding s reconcile_once [OF assms]
    by (simp add: bulkOp_def marked_def opened_def length_closeLatest)
qed

theorem transition_into_down_witness:
  "map_option downtimeCount
     (docOf ''10.0.0.1''
        (snd (handleStatusChanges healthy 5000
           (statusChangesOf
              [\<lparr>ping.address = ''10.0.0.1'', alive = False, time = NoTime, error = Some ''Ping failed''\<rparr>]
              \<lparr>ips = [target ''10.0.0.1'' Up], downtimes = []\<rparr>)
           \<lparr>ips = [target ''10.0.0.1'' Up], downtimes = []\<rparr>))) = Some 1
   \<and> map_option lastDowntime
        (docOf ''10.0.0.1''
           (snd (updatePingResults healthy 5000
              [\<lparr>ping.address = ''10.0.0.1'', alive = False, time = NoTime, error = Some ''Ping failed''\<rparr>]
              \<lparr>ips = [target ''10.0.0.1'' Up], downtimes = []\<rparr>))) = Some (Some 5000)
   \<and> eventsOf ''10.0.0.1''
        (snd (updatePingResults healthy 5000
           [\<lparr>ping.address = ''10.0.0.1'', alive = False, time = NoTime, error = Some ''Ping failed''\<rparr>]
           \<lparr>ips = [target ''10.0.0.1'' Up], downtimes = []\<rparr>))
      = [\<lparr>ipAddress = ''10.0.0.1'', timestamp = 5000, duration = None, reason = ''Ping timeout''\<rparr>]"
proof -
  have 1: "reliable healthy" by (simp add: reliable_def healthy_def)
  have 2: "distinct (map ip.address (ips \<lparr>ips = [target ''10.0.0.1'' Up], downtimes = []\<rparr>))"
    by simp
  have 3: "filter (\<lambda>x. ping.address x = ''10.0.0.1'')
      [\<lparr>ping.address = ''10.0.0.1'', alive = False, time = NoTime, error = Some ''Ping failed''\<rparr>]
    = [\<lparr>ping.address = ''10.0.0.1'', alive = False, time = NoTime, error = Some ''Ping failed''\<rparr>]"
    by simp
  have 4: "docOf ''10.0.0.1'' \<lparr>ips = [target ''10.0.0.1'' Up], downtimes = []\<rparr>
      = Some (target ''10.0.0.1'' Up)"
    by (simp add: docOf_def target_def)
  from transition_into_down [OF 1 2 3 4, of 5000] show ?thesis
    by (simp add: target_def eventsOf_def)
qed

subsection \<open>The first check of a target\<close>

text \<open>
  Claim C8, as stated, fails: a registered target that has never been checked has the
  status Unknown, and its first outcome, when \<open>alive = False\<close>, opens a downtime record
  and writes \<open>lastDowntime\<close> and \<open>downtimeCount\<close>.
\<close>

theorem first_check_counterexample:
  "status (target ''192.168.1.7'' Unknown) = Unknown
   \<and> downtimes (snd (updatePingResults healthy 1000
         [\<lparr>ping.address = ''192.168.1.7'', alive = False, time = NoTime, error = Some ''Ping failed''\<rparr>]
         \<lparr>ips = [target ''192.168.1.7'' Unknown], downtimes = []\<rparr>))
       = [\<lparr>ipAddress = ''192.168.1.7'', timestamp = 1000, duration = None,
           reason = ''Ping timeout''\<rparr>]
   \<and> map lastDowntime (ips (snd (updatePingResults healthy 1000
         [\<lparr>ping.address = ''192.168.1.7'', alive = False, time = NoTime, error = Some ''Ping failed''\<rparr>]
         \<lparr>ips = [target ''192.168.1.7'' Unknown], downtimes = []\<rparr>)))
       = [Some 1000]
   \<and> lastDowntime (target ''192.168.1.7'' Unknown) = None"
  by (simp add: reconcile_defs)

text \<open>
  Claim C8, amended. Let the storage calls succeed, the target addresses be unique, and an
  address have exactly one outcome. If no target document is stored for the address, no
  transition is recorded: the downtime records of the address stay as they are, and no
  document is created for it. If the target has the status Unknown (it has never been
  checked) and the outcome is \<open>alive = True\<close>, no downtime record is opened or closed,
  \<open>downtimeCount\<close> and \<open>lastDowntime\<close> are unchanged, and only the status (Up),
  \<open>lastChecked\<close> and \<open>responseTime\<close> are set (the latency, or \<^verbatim>\<open>null\<close> for the latency 0
  and for none); only the outcome whose time is \<^verbatim>\<open>'unknown'\<close> has its write left out of the
  bulk write, and then the target is as it was. If the target has the status Unknown and
  the outcome is \<open>alive = False\<close>, the outcome is handled as a transition into Down: a
  downtime record is opened and \<open>lastDowntime\<close> is set.
\<close>

theorem first_check:
  assumes "reliable env" and "distinct (map ip.address (ips db))"
      and "filter (\<lambda>x. ping.address x = a) results = [r]"
  shows "(docOf a db = None \<longrightarrow>
            eventsOf a (snd (updatePingResults env now results db)) = eventsOf a db
          \<and> docOf a (snd (updatePingResults env now results db)) = None)
       \<and> (\<forall>doc. docOf a db = Some doc \<and> status doc = Unknown \<and> alive r \<longrightarrow>
            eventsOf a (snd (updatePingResults env now results db)) = eventsOf a db
          \<and> docOf a (snd (updatePingResults env now results db))
              = Some (if time r = UnknownTime then doc
                      else doc\<lparr>status := Up, lastChecked := now,
                               responseTime := (case time r of
                                                  Millis t \<Rightarrow> if t = 0 then None else Some t
                                                | NoTime \<Rightarrow> None
                                                | UnknownTime \<Rightarrow> None)\<rparr>))
       \<and> (\<forall>doc. docOf a db = Some doc \<and> status doc = Unknown \<and> \<not> alive r \<longrightarrow>
            eventsOf a (snd (updatePingResults env now results db))
              = eventsOf a db @ [\<lparr>ipAddress = a, timestamp = now, duration = None,
                                  reason = ''Ping timeout''\<rparr>]
          \<and> map_option lastDowntime (docOf a (snd (updatePingResults env now results db)))
              = Some (Some now))"
proof (intro conjI allI impI)
  assume n: "docOf a db = None"
  with assms(2) have st: "currentStatusMap (ips db) a = None"
    by (simp add: currentStatusMap_distinct)
  from reconcile_absent [OF assms(1) st]
  show "eventsOf a (snd (updatePingResults env now results db)) = eventsOf a db" .
  have "detectChanges (\<lambda>b. None) rs = []" for rs :: "ping list"
    by (induction rs) simp_all
  with updatePingResults_view(2) [OF assms(1), of a now results db] st n assms(3)
  show "docOf a (snd (updatePingResults env now results db)) = None"
    by (simp add: fold_bulk_None)
next
  fix doc assume d: "docOf a db = Some doc \<and> status doc = Unknown \<and> alive r"
  then have "docOf a db = Some doc" by simp
  from reconcile_once(1) [OF assms this, of now] d
  show "eventsOf a (snd (updatePingResults env now results db)) = eventsOf a db" by simp
next
  fix doc assume d: "docOf a db = Some doc \<and> status doc = Unknown \<and> alive r"
  then have "docOf a db = Some doc" by simp
  from reconcile_once(2) [OF assms this, of now] d
  show "docOf a (snd (updatePingResults env now results db))
              = Some (if time r = UnknownTime then doc
                      else doc\<lparr>status := Up, lastChecked := now,
                               responseTime := (case time r of
                                                  Millis t \<Rightarrow> if t = 0 then None else Some t
                                                | NoTime \<Rightarrow> None
                                                | UnknownTime \<Rightarrow> None)\<rparr>)"
    by (simp add: bulkOp_def castable_def)
next
  fix doc assume d: "docOf a db = Some doc \<and> status doc = Unknown \<and> \<not> alive r"
  then have "docOf a db = Some doc" by simp
  from reconcile_once(1) [OF assms this, of now] d
  show "eventsOf a (snd (updatePingResults env now results db))
              = eventsOf a db @ [\<lparr>ipAddress = a, timestamp = now, duration = None,
                                  reason = ''Ping timeout''\<rparr>]"
    by (simp add: opened_def)
next
  fix doc assume d: "docOf a db = Some doc \<and> status doc = Unknown \<and> \<not> alive r"
  then have "docOf a db = Some doc" by simp
  from reconcile_once(2) [OF assms this, of now] d
  show "map_option lastDowntime (docOf a (snd (updatePingResults env now results db)))
              = Some (Some now)"
    by (simp add: bulkOp_def marked_def)
qed

theorem first_check_witness:
  "docOf ''192.168.1.7''
     (snd (updatePingResults healthy 1000
        [\<lparr>ping.address = ''192.168.1.7'', alive = True, time = Millis 12, error = None\<rparr>]
        \<lparr>ips = [target ''192.168.1.7'' Unknown], downtimes = []\<rparr>))
     = Some \<lparr>ip.address = ''192.168.1.7'', status = Up, downtimeCount = 0, lastDowntime = None,
             lastChecked = 1000, responseTime = Some 12\<rparr>
   \<and> eventsOf ''192.168.1.7''
        (snd (updatePingResults healthy 1000
           [\<lparr>ping.address = ''192.168.1.7'', alive = True, time = Millis 12, error = None\<rparr>]
           \<lparr>ips = [target ''192.168.1.7'' Unknown], downtimes = []\<rparr>)) = []
   \<and> docOf ''192.168.1.8''
        (snd (updatePingResults healthy 1000
           [\<lparr>ping.address = ''192.168.1.8'', alive = True, time = Millis 12, error = None\<rparr>]
           \<lparr>ips = [target ''192.168.1.7'' Unknown], downtimes = []\<rparr>)) = None"
proof -
  have 1: "reliable healthy" by (simp add: reliable_def healthy_def)
  have 2: "distinct (map ip.address (ips \<lparr>ips = [target ''192.168.1.7'' Unknown], downtimes = []\<rparr>))"
    by simp
  have 3: "filter (\<lambda>x. ping.address x = ''192.168.1.7'')
      [\<lparr>ping.address = ''192.168.1.7'', alive = True, time = Millis 12, error = None\<rparr>]
    = [\<lparr>ping.address = ''192.168.1.7'', alive = True, time = Millis 12, error = None\<rparr>]"
    by simp
  have 4: "filter (\<lambda>x. ping.address x = ''192.168.1.8'')
      [\<lparr>ping.address = ''192.168.1.8'', alive = True, time = Millis 12, error = None\<rparr>]
    = [\<lparr>ping.address = ''192.168.1.8'', alive = True, time = Millis 12, error = None\<rparr>]"
    by simp
  from first_check [OF 1 2 3, of 1000] first_check [OF 1 2 4, of 1000] show ?thesis
    by (simp add: docOf_def eventsOf_def target_def)
qed

subsection \<open>Closing a downtime\<close>

text \<open>
  Claim C4. Let the storage calls succeed, the target addresses be unique, and an address
  have a target with the recorded status Down and exactly one outcome, with
  \<open>alive = True\<close>. Then the reconciliation succeeds. If the address has an open downtime
  record, one open record with the greatest timestamp among the open records of the
  address gets the duration \<open>now - timestamp\<close>, \<open>now\<close> being the time of the reconciliation,
  and the other records of the address are as before, none added. If the address has no
  open record, its records are as before, and \<^verbatim>\<open>updateDuration\<close> returns
  \<^verbatim>\<open>{ updated: false }\<close> and changes nothing.
\<close>

theorem closure:
  assumes "reliable env" and "distinct (map ip.address (ips db))"
      and "filter (\<lambda>x. ping.address x = a) results = [r]"
      and "docOf a db = Some doc" and "status doc = Down" and "alive r"
  shows "(\<exists>x. fst (updatePingResults env now results db) = Inr x)
       \<and> (filter (isOpen a) (downtimes db) \<noteq> [] \<longrightarrow>
            (\<exists>pre d post.
                eventsOf a db = pre @ d # post
              \<and> downtime.duration d = None
              \<and> (\<forall>e\<in>set (eventsOf a db). downtime.duration e = None \<longrightarrow> timestamp e \<le> timestamp d)
              \<and> eventsOf a (snd (updatePingResults env now results db))
                  = pre @ d\<lparr>downtime.duration := Some (now - timestamp d)\<rparr> # post))
       \<and> (filter (isOpen a) (downtimes db) = [] \<longrightarrow>
            eventsOf a (snd (updatePingResults env now results db)) = eventsOf a db
          \<and> updateDuration env now a db
              = (Inr \<lparr>duration_update.updated = False, duration = None\<rparr>, db))"
proof (intro conjI impI)
  show "\<exists>x. fst (updatePingResults env now results db) = Inr x"
    by (rule updatePingResults_view(3) [OF assms(1)])
next
  from reconcile_once(1) [OF assms(1-4), of now] assms(5,6)
  have e: "eventsOf a (snd (updatePingResults env now results db)) = closeLatest now a (eventsOf a db)"
    by simp
  {
    assume "filter (isOpen a) (downtimes db) \<noteq> []"
    then have "filter (isOpen a) (eventsOf a db) \<noteq> []" by (simp add: open_eventsOf)
    from closeLatest_some [OF this, of now]
    obtain pre d post where c: "eventsOf a db = pre @ d # post" "isOpen a d"
      "\<forall>e\<in>set (eventsOf a db). isOpen a e \<longrightarrow> timestamp e \<le> timestamp d"
      "closeLatest now a (eventsOf a db) = pre @ d\<lparr>downtime.duration := Some (now - timestamp d)\<rparr> # post"
      by blast
    have "\<forall>e\<in>set (eventsOf a db). isOpen a e = (downtime.duration e = None)"
      by (simp add: eventsOf_def isOpen_def)
    with c e have "eventsOf a db = pre @ d # post
              \<and> downtime.duration d = None
              \<and> (\<forall>e\<in>set (eventsOf a db). downtime.duration e = None \<longrightarrow> timestamp e \<le> timestamp d)
              \<and> eventsOf a (snd (updatePingResults env now results db))
                  = pre @ d\<lparr>downtime.duration := Some (now - timestamp d)\<rparr> # post"
      by (simp add: isOpen_def)
    then show "\<exists>pre d post.
                eventsOf a db = pre @ d # post
              \<and> downtime.duration d = None
              \<and> (\<forall>e\<in>set (eventsOf a db). downtime.duration e = None \<longrightarrow> timestamp e \<le> timestamp d)
              \<and> eventsOf a (snd (updatePingResults env now results db))
                  = pre @ d\<lparr>downtime.duration := Some (now - timestamp d)\<rparr> # post"
      by blast
  }
  {
    assume n: "filter (isOpen a) (downtimes db) = []"
    then have "filter (isOpen a) (eventsOf a db) = []" by (simp add: open_eventsOf)
    with e show "eventsOf a (snd (updatePingResults env now results db)) = eventsOf a db"
      by (simp add: closeLatest_none)
    from updateDuration_no_open [OF assms(1) n]
    show "updateDuration env now a db
              = (Inr \<lparr>duration_update.updated = False, duration = None\<rparr>, db)" .
  }
qed

theorem closure_witness:
  "eventsOf ''10.0.0.1''
     (snd (updatePingResults healthy 9000
        [\<lparr>ping.address = ''10.0.0.1'', alive = True, time = Millis 12, error = None\<rparr>]
        \<lparr>ips = [target ''10.0.0.1'' Down],
         downtimes = [\<lparr>ipAddress = ''10.0.0.1'', timestamp = 1000, duration = Some 500,
                        reason = ''Ping timeout''\<rparr>,
                      \<lparr>ipAddress = ''10.0.0.1'', timestamp = 5000, duration = None,
                        reason = ''Ping timeout''\<rparr>]\<rparr>))
   = [\<lparr>ipAddress = ''10.0.0.1'', timestamp = 1000, duration = Some 500, reason = ''Ping timeout''\<rparr>,
      \<lparr>ipAddress = ''10.0.0.1'', timestamp = 5000, duration = Some 4000, reason = ''Ping timeout''\<rparr>]"
proof -
  define db0 where "db0 = \<lparr>ips = [target ''10.0.0.1'' Down],
         downtimes = [\<lparr>ipAddress = ''10.0.0.1'', timestamp = 1000, duration = Some 500,
                        reason = ''Ping timeout''\<rparr>,
                      \<lparr>ipAddress = ''10.0.0.1'', timestamp = 5000, duration = None,
                        reason = ''Ping timeout''\<rparr>]\<rparr>"
  define r0 where "r0 = \<lparr>ping.address = ''10.0.0.1'', alive = True, time = Millis 12, error = None\<rparr>"
  have 1: "reliable healthy" by (simp add: reliable_def healthy_def)
  have 2: "distinct (map ip.address (ips db0))" by (simp add: db0_def)
  have 3: "filter (\<lambda>x. ping.address x = ''10.0.0.1'') [r0] = [r0]" by (simp add: r0_def)
  have 4: "docOf ''10.0.0.1'' db0 = Some (target ''10.0.0.1'' Down)"
    by (simp add: docOf_def target_def db0_def)
  have 5: "status (target ''10.0.0.1'' Down) = Down" by (simp add: target_def)
  have 6: "alive r0" by (simp add: r0_def)
  have 7: "filter (isOpen ''10.0.0.1'') (downtimes db0) \<noteq> []"
    by (simp add: db0_def isOpen_def)
  from closure [OF 1 2 3 4 5 6, of 9000] 7
  obtain pre d post where c: "eventsOf ''10.0.0.1'' db0 = pre @ d # post"
    "downtime.duration d = None"
    "eventsOf ''10.0.0.1'' (snd (updatePingResults healthy 9000 [r0] db0))
       = pre @ d\<lparr>downtime.duration := Some (9000 - timestamp d)\<rparr> # post"
    by blast
  have e: "eventsOf ''10.0.0.1'' db0
     = [\<lparr>ipAddress = ''10.0.0.1'', timestamp = 1000, duration = Some 500, reason = ''Ping timeout''\<rparr>]
       @ \<lparr>ipAddress = ''10.0.0.1'', timestamp = 5000, duration = None, reason = ''Ping timeout''\<rparr> # []"
    by (simp add: eventsOf_def db0_def)
  from c(1,2) e have "pre = [\<lparr>ipAddress = ''10.0.0.1'', timestamp = 1000, duration = Some 500,
      reason = ''Ping timeout''\<rparr>]
    \<and> d = \<lparr>ipAddress = ''10.0.0.1'', timestamp = 5000, duration = None, reason = ''Ping timeout''\<rparr>
    \<and> post = []"
    by (auto simp: append_eq_Cons_conv Cons_eq_append_conv)
  with c(3) show ?thesis by (simp add: db0_def r0_def)
qed


subsection \<open>Several outcomes for one address\<close>

lemma fold_bulk_Some:
  "fold (\<lambda>update. map_option (bulkOp now update)) rs (Some d)
     = Some (fold (bulkOp now) rs d)"
  by (induction rs arbitrary: d) simp_all

lemma fold_bulk_last:
  assumes "rs \<noteq> []"
  shows "fold (bulkOp now) rs d = bulkOp now (last rs) (fold (bulkOp now) (butlast rs) d)"
proof -
  from assms have "rs = butlast rs @ [last rs]" by simp
  then have "fold (bulkOp now) rs d = fold (bulkOp now) (butlast rs @ [last rs]) d" by simp
  then show ?thesis by simp
qed

lemma fold_applyTo_doc_Some:
  "\<exists>d'. snd (fold (applyTo now a) cs (E, Some d)) = Some d'
        \<and> status d' = status d \<and> lastChecked d' = lastChecked d"
proof (induction cs arbitrary: E d)
  case Nil
  show ?case by simp
next
  case (Cons c cs)
  obtain E' d' where "applyTo now a c (E, Some d) = (E', Some d')"
    "status d' = status d" "lastChecked d' = lastChecked d"
    by (cases "to_status c = Down"; cases "to_status c = Up \<and> from_status c = Down")
       (simp_all add: applyTo_def marked_def)
  with Cons.IH [of E' d'] show ?case by simp
qed

lemma opens_per_down_outcome:
  "s \<noteq> Down \<Longrightarrow>
   fst (fold (applyTo now a) (detectChanges (\<lambda>b. Some s) rs) (E, D))
     = E @ replicate (length (filter (\<lambda>x. \<not> alive x) rs)) (opened a now)"
proof (induction rs arbitrary: E D)
  case Nil
  show ?case by simp
next
  case (Cons r rs)
  show ?case
  proof (cases "alive r")
    case True
    with Cons.prems Cons.IH [OF Cons.prems, of E D] show ?thesis
      by (cases s) (simp_all add: applyTo_def)
  next
    case False
    with Cons.prems Cons.IH [OF Cons.prems, of "E @ [opened a now]" "map_option (marked now) D"]
    show ?thesis
      by (simp add: applyTo_def replicate_append_same)
  qed
qed

lemma closes_per_up_outcome:
  "fst (fold (applyTo now a) (detectChanges (\<lambda>b. Some Down) rs) (E, D))
     = (closeLatest now a ^^ length (filter alive rs)) E"
proof (induction rs arbitrary: E D)
  case Nil
  show ?case by simp
next
  case (Cons r rs)
  show ?case
  proof (cases "alive r")
    case True
    with Cons.IH [of "closeLatest now a E" D] show ?thesis
      by (simp add: applyTo_def funpow_swap1)
  next
    case False
    with Cons.IH [of E D] show ?thesis by simp
  qed
qed

text \<open>
  Claim C9, as stated, fails. Two outcomes for one address, both \<open>alive = False\<close>, for a
  target recorded as Up open two downtime records in one reconciliation, where the last
  outcome alone opens one. And the last outcome does not always determine the final status:
  after an outcome \<open>alive = True\<close> and a last outcome \<open>alive = False\<close> whose time is
  \<^verbatim>\<open>'unknown'\<close>, the status write of the last outcome is left out of the bulk write, and the
  target recorded as Up is still Up, with a downtime record opened.
\<close>

theorem duplicates_counterexample:
  "downtimes (snd (updatePingResults healthy 5000
      [\<lparr>ping.address = ''10.0.0.1'', alive = False, time = NoTime, error = Some ''Ping failed''\<rparr>,
       \<lparr>ping.address = ''10.0.0.1'', alive = False, time = NoTime, error = Some ''Ping failed''\<rparr>]
      \<lparr>ips = [target ''10.0.0.1'' Up], downtimes = []\<rparr>))
   = [\<lparr>ipAddress = ''10.0.0.1'', timestamp = 5000, duration = None, reason = ''Ping timeout''\<rparr>,
      \<lparr>ipAddress = ''10.0.0.1'', timestamp = 5000, duration = None, reason = ''Ping timeout''\<rparr>]
   \<and> downtimes (snd (updatePingResults healthy 5000
      [\<lparr>ping.address = ''10.0.0.1'', alive = False, time = NoTime, error = Some ''Ping failed''\<rparr>]
      \<lparr>ips = [target ''10.0.0.1'' Up], downtimes = []\<rparr>))
   = [\<lparr>ipAddress = ''10.0.0.1'', timestamp = 5000, duration = None, reason = ''Ping timeout''\<rparr>]
   \<and> snd (updatePingResults healthy 5000
      [\<lparr>ping.address = ''10.0.0.1'', alive = True, time = Millis 12, error = None\<rparr>,
       \<lparr>ping.address = ''10.0.0.1'', alive = False, time = UnknownTime, error = Some ''Ping failed''\<rparr>]
      \<lparr>ips = [target ''10.0.0.1'' Up], downtimes = []\<rparr>)
   = \<lparr>ips = [\<lparr>ip.address = ''10.0.0.1'', status = Up, downtimeCount = 1,
               lastDowntime = Some 5000, lastChecked = 5000, responseTime = Some 12\<rparr>],
      downtimes = [\<lparr>ipAddress = ''10.0.0.1'', timestamp = 5000, duration = None,
                    reason = ''Ping timeout''\<rparr>]\<rparr>"
  by (simp add: reconcile_defs)

text \<open>
  Claim C9, amended. Let the storage calls succeed and the target addresses be unique, and
  let an address with a target have one or more outcomes in the list. The reconciliation
  succeeds. The status writes for the address that reach the storage are its outcomes whose
  time is not \<^verbatim>\<open>'unknown'\<close>, each once, in the order in which the unordered bulk write
  carries them out. The last of them in that order determines the final status of the
  target, and \<open>lastChecked\<close> is then the time of the reconciliation; if there is none, the
  status and \<open>lastChecked\<close> stay as they are. If the write is carried out in the order of
  the list, these writes are in the order of the list. The transition effects are applied
  once for every outcome that differs from the status recorded at the start: for a target
  recorded as Up or Unknown every outcome with \<open>alive = False\<close> opens a downtime record,
  and for a target recorded as Down every outcome with \<open>alive = True\<close> runs the closing of
  the latest open record.
\<close>

theorem duplicates:
  assumes "reliable env" and "distinct (map ip.address (ips db))"
      and "docOf a db = Some doc"
      and "filter (\<lambda>x. ping.address x = a) results \<noteq> []"
  shows "(\<exists>x. fst (updatePingResults env now results db) = Inr x)
       \<and> mset (filter (\<lambda>x. ping.address x = a) (bulkOps env results))
           = mset (filter castable (filter (\<lambda>x. ping.address x = a) results))
       \<and> (filter (\<lambda>x. ping.address x = a) (bulkOps env results) \<noteq> [] \<longrightarrow>
            map_option status (docOf a (snd (updatePingResults env now results db)))
              = Some (if alive (last (filter (\<lambda>x. ping.address x = a) (bulkOps env results)))
                      then Up else Down)
          \<and> map_option lastChecked (docOf a (snd (updatePingResults env now results db)))
              = Some now)
       \<and> (filter (\<lambda>x. ping.address x = a) (bulkOps env results) = [] \<longrightarrow>
            map_option status (docOf a (snd (updatePingResults env now results db)))
              = Some (status doc)
          \<and> map_option lastChecked (docOf a (snd (updatePingResults env now results db)))
              = Some (lastChecked doc))
       \<and> ((\<forall>i j. i \<le> j \<longrightarrow> bulk_rank env i \<le> bulk_rank env j) \<longrightarrow>
            filter (\<lambda>x. ping.address x = a) (bulkOps env results)
              = filter castable (filter (\<lambda>x. ping.address x = a) results))
       \<and> (status doc \<noteq> Down \<longrightarrow>
            eventsOf a (snd (updatePingResults env now results db))
              = eventsOf a db
                @ replicate
                    (length (filter (\<lambda>x. \<not> alive x) (filter (\<lambda>x. ping.address x = a) results)))
                    \<lparr>ipAddress = a, timestamp = now, duration = None, reason = ''Ping timeout''\<rparr>)
       \<and> (status doc = Down \<longrightarrow>
            eventsOf a (snd (updatePingResults env now results db))
              = (closeLatest now a ^^ length (filter alive (filter (\<lambda>x. ping.address x = a) results)))
                  (eventsOf a db))"
proof -
  define rs where "rs = filter (\<lambda>x. ping.address x = a) results"
  define ops where "ops = filter (\<lambda>x. ping.address x = a) (bulkOps env results)"
  define db' where "db' = snd (updatePingResults env now results db)"
  from assms(2,3) have st: "currentStatusMap (ips db) a = Some (status doc)"
    by (simp add: currentStatusMap_distinct)
  have ev: "eventsOf a db'
      = fst (fold (applyTo now a) (detectChanges (\<lambda>b. Some (status doc)) rs) (eventsOf a db, Some doc))"
    using updatePingResults_view(1) [OF assms(1), of a now results db]
    by (simp add: db'_def rs_def st assms(3))
  obtain d1 where d1: "snd (fold (applyTo now a) (detectChanges (\<lambda>b. Some (status doc)) rs)
      (eventsOf a db, Some doc)) = Some d1" "status d1 = status doc" "lastChecked d1 = lastChecked doc"
    using fold_applyTo_doc_Some by blast
  have "docOf a db' = fold (\<lambda>update. map_option (bulkOp now update)) ops (Some d1)"
    using updatePingResults_view(2) [OF assms(1), of a now results db] d1(1)
    by (simp add: db'_def rs_def ops_def st assms(3))
  then have doc: "docOf a db' = Some (fold (bulkOp now) ops d1)"
    by (simp add: fold_bulk_Some)
  have 1: "\<exists>x. fst (updatePingResults env now results db) = Inr x"
    by (rule updatePingResults_view(3) [OF assms(1)])
  have 2: "mset ops = mset (filter castable rs)"
    unfolding ops_def rs_def by (rule mset_bulkOps_filter)
  have 3: "ops \<noteq> [] \<longrightarrow>
      map_option status (docOf a db') = Some (if alive (last ops) then Up else Down)
      \<and> map_option lastChecked (docOf a db') = Some now"
  proof
    assume "ops \<noteq> []"
    from fold_bulk_last [OF this, of now d1]
    show "map_option status (docOf a db') = Some (if alive (last ops) then Up else Down)
      \<and> map_option lastChecked (docOf a db') = Some now"
      by (simp add: doc bulkOp_def)
  qed
  have 4: "ops = [] \<longrightarrow>
      map_option status (docOf a db') = Some (status doc)
      \<and> map_option lastChecked (docOf a db') = Some (lastChecked doc)"
    by (simp add: doc d1)
  have 5: "(\<forall>i j. i \<le> j \<longrightarrow> bulk_rank env i \<le> bulk_rank env j) \<longrightarrow> ops = filter castable rs"
  proof
    assume "\<forall>i j. i \<le> j \<longrightarrow> bulk_rank env i \<le> bulk_rank env j"
    then have "bulkOps env results = filter castable results" by (rule bulkOps_in_order)
    then show "ops = filter castable rs" by (simp add: ops_def rs_def conj_commute)
  qed
  have 6: "status doc \<noteq> Down \<longrightarrow> eventsOf a db'
      = eventsOf a db @ replicate (length (filter (\<lambda>x. \<not> alive x) rs))
          \<lparr>ipAddress = a, timestamp = now, duration = None, reason = ''Ping timeout''\<rparr>"
    by (simp add: ev opens_per_down_outcome opened_def)
  have 7: "status doc = Down \<longrightarrow> eventsOf a db'
      = (closeLatest now a ^^ length (filter alive rs)) (eventsOf a db)"
    by (simp add: ev closes_per_up_outcome)
  from 1 2 3 4 5 6 7 show ?thesis unfolding rs_def ops_def db'_def by (intro conjI)
qed

theorem duplicates_witness:
  "map_option status (docOf ''10.0.0.1''
      (snd (updatePingResults healthy 5000
        [\<lparr>ping.address = ''10.0.0.1'', alive = False, time = NoTime, error = Some ''Ping failed''\<rparr>,
         \<lparr>ping.address = ''10.0.0.1'', alive = True, time = Millis 12, error = None\<rparr>]
        \<lparr>ips = [target ''10.0.0.1'' Up], downtimes = []\<rparr>))) = Some Up
   \<and> map_option lastChecked (docOf ''10.0.0.1''
      (snd (updatePingResults healthy 5000
        [\<lparr>ping.address = ''10.0.0.1'', alive = False, time = NoTime, error = Some ''Ping failed''\<rparr>,
         \<lparr>ping.address = ''10.0.0.1'', alive = True, time = Millis 12, error = None\<rparr>]
        \<lparr>ips = [target ''10.0.0.1'' Up], downtimes = []\<rparr>))) = Some 5000
   \<and> eventsOf ''10.0.0.1''
      (snd (updatePingResults healthy 5000
        [\<lparr>ping.address = ''10.0.0.1'', alive = False, time = NoTime, error = Some ''Ping failed''\<rparr>,
         \<lparr>ping.address = ''10.0.0.1'', alive = True, time = Millis 12, error = None\<rparr>]
        \<lparr>ips = [target ''10.0.0.1'' Up], downtimes = []\<rparr>))
     = [\<lparr>ipAddress = ''10.0.0.1'', timestamp = 5000, duration = None, reason = ''Ping timeout''\<rparr>]
   \<and> map_option status (docOf ''10.0.0.1''
      (snd (updatePingResults healthy 5000
        [\<lparr>ping.address = ''10.0.0.1'', alive = False, time = UnknownTime, error = Some ''Ping failed''\<rparr>]
        \<lparr>ips = [target ''10.0.0.1'' Up], downtimes = []\<rparr>))) = Some Up"
proof -
  define db0 where "db0 = \<lparr>ips = [target ''10.0.0.1'' Up], downtimes = []\<rparr>"
  define rs where "rs =
        [\<lparr>ping.address = ''10.0.0.1'', alive = False, time = NoTime, error = Some ''Ping failed''\<rparr>,
         \<lparr>ping.address = ''10.0.0.1'', alive = True, time = Millis 12, error = None\<rparr>]"
  define us where "us =
        [\<lparr>ping.address = ''10.0.0.1'', alive = False, time = UnknownTime, error = Some ''Ping failed''\<rparr>]"
  have 1: "reliable healthy" by (simp add: reliable_def healthy_def)
  have 2: "distinct (map ip.address (ips db0))" by (simp add: db0_def)
  have 3: "docOf ''10.0.0.1'' db0 = Some (target ''10.0.0.1'' Up)"
    by (simp add: docOf_def target_def db0_def)
  have 4: "filter (\<lambda>x. ping.address x = ''10.0.0.1'') rs \<noteq> []" by (simp add: rs_def)
  have 5: "filter (\<lambda>x. ping.address x = ''10.0.0.1'') us \<noteq> []" by (simp add: us_def)
  have 6: "filter (\<lambda>x. ping.address x = ''10.0.0.1'') (bulkOps healthy rs) = rs"
    by (simp add: rs_def bulkOps_def healthy_def castable_def)
  have 7: "filter (\<lambda>x. ping.address x = ''10.0.0.1'') (bulkOps healthy us) = []"
    by (simp add: us_def bulkOps_def healthy_def castable_def)
  from duplicates [OF 1 2 3 4, of 5000] duplicates [OF 1 2 3 5, of 5000] show ?thesis
    unfolding db0_def [symmetric] rs_def [symmetric] us_def [symmetric] 6 7
    by (simp add: rs_def target_def eventsOf_def db0_def)
qed

subsection \<open>At most one open downtime per target\<close>

















subsection \<open>The driver\<close>

lemma run_append: "run (es @ es') s = run es' (run es s)"
  by (simp add: run_def)

lemma run_ticks: "run (replicate n Tick) s = s @ replicate n Probing"
proof (induction n arbitrary: s)
  case 0
  show ?case by (simp add: run_def)
next
  case (Suc n)
  have "run (replicate (Suc n) Tick) s = run (replicate n Tick) (step Tick s)"
    by (simp add: run_def)
  with Suc [of "step Tick s"] show ?case by (simp add: replicate_append_same)
qed

lemma run_serial:
  "run (concat (replicate n [ProbesDone 0, Settled 0, Tick])) [Probing] = [Probing]"
proof (induction n)
  case 0
  show ?case by (simp add: run_def)
next
  case (Suc n)
  have "run [ProbesDone 0, Settled 0, Tick] [Probing] = [Probing]"
    by (simp add: run_def)
  with Suc show ?case by (simp add: run_append del: append.simps)
qed

text \<open>
  Claim C7, as stated, fails: one firing of the timer before the first cycle has settled
  leaves two cycles in flight, and both can be reconciling at the same time.
\<close>

theorem driver_counterexample:
  "run [Tick] startPingService = [Probing, Probing]
   \<and> run [Tick, ProbesDone 0, ProbesDone 1] startPingService = [Reconciling, Reconciling]"
  by (simp add: run_def startPingService_def)

text \<open>
  Claim C7, amended. The driver starts one cycle at once and one more at every firing of
  the fixed-interval timer, whether or not the cycles started before have settled: in
  every state the driver can reach, a firing adds a cycle to those in flight, and \<open>n\<close>
  firings with no cycle settling in between leave \<open>n + 1\<close> cycles in flight. The cycles
  run one after the other as long as each settles before the next firing.
\<close>

theorem driver_fixed_timer:
  "run (es @ [Tick]) startPingService = run es startPingService @ [Probing]
   \<and> run (replicate n Tick) startPingService = replicate (Suc n) Probing
   \<and> run (concat (replicate n [ProbesDone 0, Settled 0, Tick])) startPingService = [Probing]"
  by (simp add: run_append run_ticks run_serial startPingService_def) (simp add: run_def)

end
